theory Spec2Isabelle
  imports Main "HOL-Library.Word" "HOL-Library.Signed_Division"
begin

unbundle bit_operations_syntax

section \<open>CUBIC with HyStart: the data model of \<open>net/ipv4/tcp_cubic.c\<close>\<close>

type_synonym u8 = "8 word"
type_synonym u16 = "16 word"
type_synonym u32 = "32 word"
type_synonym u64 = "64 word"

text \<open>
  A C \<open>int\<close> (and \<open>s32\<close>) is kept as its 32-bit pattern; \<open>sint\<close> reads it as a signed
  value.  The usual arithmetic conversions of C turn an \<open>int\<close> operand into \<open>u32\<close> when
  the other operand is \<open>u32\<close>, which on the bit pattern is the identity.
\<close>

type_synonym s32 = "32 word"

text \<open>
  The module parameters (lines 47-60) and the three scale factors that
  \<open>cubictcp_register\<close> precomputes from them (lines 62-64).
\<close>

record params =
  fast_convergence :: s32
  beta :: s32
  initial_ssthresh :: s32
  bic_scale :: s32
  tcp_friendliness :: s32
  hystart :: s32
  hystart_detect :: s32
  hystart_low_window :: s32
  hystart_ack_delta :: s32
  hystart_delay_max :: s32
  cube_rtt_scale :: u32
  beta_scale :: u32
  cube_factor :: u64

definition BICTCP_BETA_SCALE :: u32 where
  "BICTCP_BETA_SCALE = 1024"

definition BICTCP_HZ :: nat where
  "BICTCP_HZ = 10"

definition HYSTART_ACK_TRAIN :: u8 where
  "HYSTART_ACK_TRAIN = 1"

definition HYSTART_DELAY :: u8 where
  "HYSTART_DELAY = 2"

definition HYSTART_MIN_SAMPLES :: u8 where
  "HYSTART_MIN_SAMPLES = 8"

definition HYSTART_DELAY_MIN :: u32 where
  "HYSTART_DELAY_MIN = push_bit 3 4"

definition INT_MAX :: u32 where
  "INT_MAX = 2147483647"

text \<open>
  \<open>HYSTART_DELAY_MAX\<close> is \<open>(hystart_delay_max ? (16U<<3) : INT_MAX)\<close>: an unsigned
  value in both branches.
\<close>

definition HYSTART_DELAY_MAX :: "params \<Rightarrow> u32" where
  "HYSTART_DELAY_MAX p = (if hystart_delay_max p \<noteq> 0 then push_bit 3 16 else INT_MAX)"

text \<open>The kernel's \<open>clamp(val, lo, hi)\<close> is \<open>min(max(val, lo), hi)\<close>, here on \<open>u32\<close>.\<close>

definition clamp :: "u32 \<Rightarrow> u32 \<Rightarrow> u32 \<Rightarrow> u32" where
  "clamp val lo hi = min (max val lo) hi"

definition HYSTART_DELAY_THRESH :: "params \<Rightarrow> u32 \<Rightarrow> u32" where
  "HYSTART_DELAY_THRESH p x = clamp x HYSTART_DELAY_MIN (HYSTART_DELAY_MAX p)"

text \<open>\<open>struct bictcp\<close> (lines 96-115).\<close>

record bictcp =
  cnt :: u32
  last_max_cwnd :: u32
  last_cwnd :: u32
  last_time :: u32
  bic_origin_point :: u32
  bic_K :: u32
  delay_min :: u32
  epoch_start :: u32
  ack_cnt :: u32
  tcp_cwnd :: u32
  unused :: u16
  sample_cnt :: u8
  found :: u8
  round_start :: u32
  end_seq :: u32
  last_ack :: u32
  curr_rtt :: u32

text \<open>The fields of the kernel's \<open>struct tcp_sock\<close> that the control law reads or writes.\<close>

record tcp_sock =
  snd_cwnd :: u32
  snd_ssthresh :: u32
  snd_nxt :: u32
  lsndtime :: u32

text \<open>
  A socket: the transport's part and the congestion-control private area
  (\<open>tcp_sk(sk)\<close> and \<open>inet_csk_ca(sk)\<close>).
\<close>

record sock =
  tp :: tcp_sock
  ca :: bictcp

text \<open>
  What the file takes from the rest of the kernel: the tick rate \<open>HZ\<close>, the conversion
  \<open>msecs_to_jiffies\<close> and the helpers of the TCP stack that \<open>bictcp_cong_avoid\<close> and
  \<open>bictcp_acked\<close> call.  They are parameters of the model; the helpers work on the
  transport's part of the socket only.
\<close>

record kernel =
  HZ :: int
  msecs_to_jiffies :: "u32 \<Rightarrow> u64"
  tcp_is_cwnd_limited :: "tcp_sock \<Rightarrow> bool"
  tcp_in_slow_start :: "tcp_sock \<Rightarrow> bool"
  tcp_slow_start :: "tcp_sock \<Rightarrow> u32 \<Rightarrow> tcp_sock \<times> u32"
  tcp_cong_avoid_ai :: "tcp_sock \<Rightarrow> u32 \<Rightarrow> u32 \<Rightarrow> tcp_sock"

text \<open>\<open>after(seq1, seq2)\<close> is \<open>before(seq2, seq1)\<close>, that is \<open>(s32)(seq2 - seq1) < 0\<close>.\<close>

definition after :: "u32 \<Rightarrow> u32 \<Rightarrow> bool" where
  "after seq1 seq2 = (sint (seq2 - seq1) < 0)"

text \<open>The events of \<open>enum tcp_ca_event\<close> and the value of \<open>TCP_CA_Loss\<close> in \<open>enum tcp_ca_state\<close>.\<close>

datatype tcp_ca_event =
  CA_EVENT_TX_START | CA_EVENT_CWND_RESTART | CA_EVENT_COMPLETE_CWR
  | CA_EVENT_LOSS | CA_EVENT_ECN_NO_CE | CA_EVENT_ECN_IS_CE

definition TCP_CA_Loss :: u8 where
  "TCP_CA_Loss = 4"

section \<open>Reset, initialisation and idle restart\<close>

definition bictcp_reset :: "bictcp \<Rightarrow> bictcp" where
  "bictcp_reset c = c\<lparr>cnt := 0, last_max_cwnd := 0, last_cwnd := 0, last_time := 0,
     bic_origin_point := 0, bic_K := 0, delay_min := 0, epoch_start := 0, ack_cnt := 0,
     tcp_cwnd := 0, found := 0\<rparr>"

text \<open>The second argument is the value read from \<open>bictcp_clock()\<close>.\<close>

definition bictcp_hystart_reset :: "sock \<Rightarrow> u32 \<Rightarrow> sock" where
  "bictcp_hystart_reset sk clock =
     sk\<lparr>ca := (ca sk)\<lparr>round_start := clock, last_ack := clock, end_seq := snd_nxt (tp sk),
       curr_rtt := 0, sample_cnt := 0\<rparr>\<rparr>"

definition bictcp_init :: "params \<Rightarrow> sock \<Rightarrow> u32 \<Rightarrow> sock" where
  "bictcp_init p sk clock =
     (let sk1 = sk\<lparr>ca := bictcp_reset (ca sk)\<rparr>;
          sk2 = (if hystart p \<noteq> 0 then bictcp_hystart_reset sk1 clock else sk1)
      in if hystart p = 0 \<and> initial_ssthresh p \<noteq> 0
         then sk2\<lparr>tp := (tp sk2)\<lparr>snd_ssthresh := initial_ssthresh p\<rparr>\<rparr>
         else sk2)"

text \<open>The third argument is the value read from \<open>tcp_jiffies32\<close>.\<close>

definition bictcp_cwnd_event :: "sock \<Rightarrow> tcp_ca_event \<Rightarrow> u32 \<Rightarrow> sock" where
  "bictcp_cwnd_event sk event now =
     (if event = CA_EVENT_TX_START then
        (let delta = now - lsndtime (tp sk) in
         if epoch_start (ca sk) \<noteq> 0 \<and> 0 < sint delta then
           (let e = epoch_start (ca sk) + delta in
            sk\<lparr>ca := (ca sk)\<lparr>epoch_start := (if after e now then now else e)\<rparr>\<rparr>)
         else sk)
      else sk)"

section \<open>The cube root\<close>

text \<open>
  \<open>fls64\<close> is the kernel's "find last set bit": the 1-based position of the most
  significant set bit of a 64-bit value, and 0 for 0.
\<close>

fun fls :: "nat \<Rightarrow> nat" where
  "fls n = (if n = 0 then 0 else Suc (fls (n div 2)))"

declare fls.simps [simp del]

definition fls64 :: "u64 \<Rightarrow> u32" where
  "fls64 a = of_nat (fls (unat a))"

text \<open>The table \<open>v\<close> of \<open>cubic_root\<close> (lines 202-211).\<close>

definition cubic_root_v :: "u8 list" where
  "cubic_root_v =
    [   0,   54,   54,   54,  118,  118,  118,  118,
      123,  129,  134,  138,  143,  147,  151,  156,
      157,  161,  164,  168,  170,  173,  176,  179,
      181,  185,  187,  190,  192,  194,  197,  199,
      200,  202,  204,  206,  209,  211,  213,  215,
      217,  219,  221,  222,  224,  225,  227,  229,
      231,  232,  234,  236,  237,  239,  240,  242,
      244,  245,  246,  248,  250,  251,  252,  254]"

text \<open>
  The three intermediate values of the second branch of \<open>cubic_root\<close>: the exponent
  \<open>b = ((b * 84) >> 8) - 1\<close>, the table index \<open>shift = (a >> (b * 3))\<close> (stored in a
  \<open>u32\<close>) and the seed \<open>x = ((u32)(((u32)v[shift] + 10) << b)) >> 6\<close>.
\<close>

definition cubic_root_b :: "u64 \<Rightarrow> u32" where
  "cubic_root_b a = drop_bit 8 (fls64 a * 84) - 1"

definition cubic_root_shift :: "u64 \<Rightarrow> u32" where
  "cubic_root_shift a = ucast (drop_bit (unat (cubic_root_b a * 3)) a)"

definition cubic_root_seed :: "u64 \<Rightarrow> u32" where
  "cubic_root_seed a =
     drop_bit 6 (push_bit (unat (cubic_root_b a))
       (ucast (cubic_root_v ! unat (cubic_root_shift a)) + 10))"

text \<open>
  \<open>cubic_root\<close> (lines 191-233).  A read outside the 64 entries of the table and a
  division by zero are the two ways the C function can fail; both are \<open>None\<close> here.
\<close>

definition cubic_root :: "u64 \<Rightarrow> u32 option" where
  "cubic_root a =
     (if fls64 a < 7 then
        (if unat (ucast a :: u32) < length cubic_root_v
         then Some (drop_bit 6 (ucast (cubic_root_v ! unat (ucast a :: u32)) + 35))
         else None)
      else if unat (cubic_root_shift a) < length cubic_root_v then
        (let x = cubic_root_seed a;
             d = (ucast x :: u64) * (ucast (x - 1) :: u64)
         in if d = 0 then None
            else (let x1 = 2 * x + (ucast (a div d) :: u32)
                  in Some (drop_bit 10 (x1 * 341))))
      else None)"

section \<open>The window growth function\<close>

text \<open>
  The loop \<open>while (ca->ack_cnt > delta) { ca->ack_cnt -= delta; ca->tcp_cwnd++; }\<close> of
  lines 329-332.  With \<open>delta = 0\<close> and a nonzero \<open>ack_cnt\<close> it never ends, so the
  result is an option: \<open>None\<close> is "does not return".
\<close>

partial_function (option) tcp_cwnd_loop :: "u32 \<Rightarrow> bictcp \<Rightarrow> bictcp option" where
  "tcp_cwnd_loop delta c =
     (if delta < ack_cnt c
      then tcp_cwnd_loop delta (c\<lparr>ack_cnt := ack_cnt c - delta, tcp_cwnd := tcp_cwnd c + 1\<rparr>)
      else Some c)"

text \<open>
  \<open>bictcp_update\<close> from the label \<open>tcp_friendliness:\<close> to its end (lines 323-345): the
  TCP-friendly region and the final floor \<open>ca->cnt = max(ca->cnt, 2U)\<close>.
\<close>

definition bictcp_update_friendliness :: "params \<Rightarrow> bictcp \<Rightarrow> u32 \<Rightarrow> bictcp option" where
  "bictcp_update_friendliness p c cwnd =
     Option.bind
       (if tcp_friendliness p \<noteq> 0 then
          Option.bind (tcp_cwnd_loop (drop_bit 3 (cwnd * beta_scale p)) c)
            (\<lambda>c1. Some
               (if cwnd < tcp_cwnd c1 then
                  (let delta = tcp_cwnd c1 - cwnd;
                       max_cnt = cwnd div delta
                   in if max_cnt < cnt c1 then c1\<lparr>cnt := max_cnt\<rparr> else c1)
                else c1))
        else Some c)
       (\<lambda>c2. Some (c2\<lparr>cnt := max (cnt c2) 2\<rparr>))"

text \<open>
  The start of an epoch in \<open>bictcp_update\<close> (lines 256-275).  \<open>now\<close> is the value of
  \<open>tcp_jiffies32\<close>.  Only \<open>cubic_root\<close> can keep it from returning.
\<close>

definition bictcp_update_epoch :: "params \<Rightarrow> bictcp \<Rightarrow> u32 \<Rightarrow> u32 \<Rightarrow> u32 \<Rightarrow> bictcp option" where
  "bictcp_update_epoch p c cwnd acked now =
     (let c1 = c\<lparr>last_cwnd := cwnd, last_time := now\<rparr> in
      if epoch_start c1 = 0 then
        (let c2 = c1\<lparr>epoch_start := now, ack_cnt := acked, tcp_cwnd := cwnd\<rparr> in
         if last_max_cwnd c2 \<le> cwnd then Some (c2\<lparr>bic_K := 0, bic_origin_point := cwnd\<rparr>)
         else Option.bind (cubic_root (cube_factor p * ucast (last_max_cwnd c2 - cwnd)))
                (\<lambda>r. Some (c2\<lparr>bic_K := r, bic_origin_point := last_max_cwnd c2\<rparr>)))
      else Some c1)"

text \<open>
  The evaluation of the cubic function in \<open>bictcp_update\<close> (lines 291-321).  The
  variable \<open>t\<close> is a \<open>u64\<close> that receives an \<open>s32\<close>, hence the sign extension \<open>scast\<close>;
  \<open>do_div(t, HZ)\<close> divides it by the 32-bit value of \<open>HZ\<close>, and a zero divisor is
  \<open>None\<close>.
\<close>

definition bictcp_update_target :: "params \<Rightarrow> kernel \<Rightarrow> bictcp \<Rightarrow> u32 \<Rightarrow> u32 \<Rightarrow> bictcp option" where
  "bictcp_update_target p k c cwnd now =
     (if (word_of_int (HZ k) :: u32) = 0 then None
      else
        (let t0 = (scast (now - epoch_start c) :: u64);
             t1 = t0 + msecs_to_jiffies k (drop_bit 3 (delay_min c));
             t2 = push_bit BICTCP_HZ t1;
             t = t2 div ucast (word_of_int (HZ k) :: u32);
             offs = (if t < ucast (bic_K c) then ucast (bic_K c) - t else t - ucast (bic_K c));
             delta = (ucast (drop_bit (10 + 3 * BICTCP_HZ)
                        (ucast (cube_rtt_scale p) * offs * offs * offs)) :: u32);
             bic_target = (if t < ucast (bic_K c) then bic_origin_point c - delta
                           else bic_origin_point c + delta);
             c1 = (if cwnd < bic_target then c\<lparr>cnt := cwnd div (bic_target - cwnd)\<rparr>
                   else c\<lparr>cnt := 100 * cwnd\<rparr>)
         in Some (if last_max_cwnd c1 = 0 \<and> 20 < cnt c1 then c1\<lparr>cnt := 20\<rparr> else c1)))"

text \<open>The cubic part of \<open>bictcp_update\<close> (lines 256-321) is the one after the other.\<close>

definition bictcp_update_cubic ::
  "params \<Rightarrow> kernel \<Rightarrow> bictcp \<Rightarrow> u32 \<Rightarrow> u32 \<Rightarrow> u32 \<Rightarrow> bictcp option" where
  "bictcp_update_cubic p k c cwnd acked now =
     Option.bind (bictcp_update_epoch p c cwnd acked now)
       (\<lambda>c3. bictcp_update_target p k c3 cwnd now)"

text \<open>
  \<open>bictcp_update\<close> (lines 238-346).  The first guard returns at once; the second one
  jumps to the label \<open>tcp_friendliness\<close>.  \<open>HZ / 32\<close> is a division of C \<open>int\<close>s.
\<close>

definition bictcp_update ::
  "params \<Rightarrow> kernel \<Rightarrow> bictcp \<Rightarrow> u32 \<Rightarrow> u32 \<Rightarrow> u32 \<Rightarrow> bictcp option" where
  "bictcp_update p k c cwnd acked now =
     (let c0 = c\<lparr>ack_cnt := ack_cnt c + acked\<rparr> in
      if last_cwnd c0 = cwnd \<and> sint (now - last_time c0) \<le> HZ k sdiv 32 then Some c0
      else if epoch_start c0 \<noteq> 0 \<and> now = last_time c0
        then bictcp_update_friendliness p c0 cwnd
      else Option.bind (bictcp_update_cubic p k c0 cwnd acked now)
             (\<lambda>c1. bictcp_update_friendliness p c1 cwnd))"

text \<open>
  \<open>bictcp_cong_avoid\<close> (lines 348-365); \<open>now\<close> is \<open>tcp_jiffies32\<close> and \<open>clock\<close> is
  \<open>bictcp_clock()\<close>.
\<close>

definition bictcp_cong_avoid ::
  "params \<Rightarrow> kernel \<Rightarrow> sock \<Rightarrow> u32 \<Rightarrow> u32 \<Rightarrow> u32 \<Rightarrow> u32 \<Rightarrow> sock option" where
  "bictcp_cong_avoid p k sk ack acked now clock =
     (if \<not> tcp_is_cwnd_limited k (tp sk) then Some sk
      else
        (let (sk1, acked1, done) =
           (if tcp_in_slow_start k (tp sk) then
              (let sk0 = (if hystart p \<noteq> 0 \<and> after ack (end_seq (ca sk))
                          then bictcp_hystart_reset sk clock else sk);
                   (tp1, a1) = tcp_slow_start k (tp sk0) acked
               in (sk0\<lparr>tp := tp1\<rparr>, a1, a1 = 0))
            else (sk, acked, False))
         in if done then Some sk1
            else Option.bind (bictcp_update p k (ca sk1) (snd_cwnd (tp sk1)) acked1 now)
                   (\<lambda>c. Some (sk1\<lparr>ca := c, tp := tcp_cong_avoid_ai k (tp sk1) (cnt c) acked1\<rparr>))))"

section \<open>Loss response\<close>

text \<open>
  \<open>bictcp_recalc_ssthresh\<close> (lines 367-402) returns the new threshold and updates the
  private area.  The port numbers it computes only feed \<open>printk\<close>.
\<close>

definition bictcp_recalc_ssthresh :: "params \<Rightarrow> sock \<Rightarrow> sock \<times> u32" where
  "bictcp_recalc_ssthresh p sk =
     (let w = snd_cwnd (tp sk);
          c1 = (ca sk)\<lparr>epoch_start := 0\<rparr>;
          c2 = (if w < last_max_cwnd c1 \<and> fast_convergence p \<noteq> 0
                then c1\<lparr>last_max_cwnd := (w * (BICTCP_BETA_SCALE + beta p))
                                            div (2 * BICTCP_BETA_SCALE)\<rparr>
                else c1\<lparr>last_max_cwnd := w\<rparr>)
      in (sk\<lparr>ca := c2\<rparr>, max ((w * beta p) div BICTCP_BETA_SCALE) 2))"

definition bictcp_state :: "sock \<Rightarrow> u8 \<Rightarrow> u32 \<Rightarrow> sock" where
  "bictcp_state sk new_state clock =
     (if new_state = TCP_CA_Loss
      then bictcp_hystart_reset (sk\<lparr>ca := bictcp_reset (ca sk)\<rparr>) clock
      else sk)"

section \<open>HyStart\<close>

text \<open>
  The ACK-train block of \<open>hystart_update\<close> (lines 431-447); \<open>clock\<close> is
  \<open>bictcp_clock()\<close>.  In \<open>(s32)(now - ca->round_start) > ca->delay_min >> 4\<close> the right
  operand is a \<open>u32\<close>, so the comparison is unsigned.
\<close>

definition hystart_ack_train :: "params \<Rightarrow> sock \<Rightarrow> u32 \<Rightarrow> sock" where
  "hystart_ack_train p sk clock =
     (if hystart_detect p AND ucast HYSTART_ACK_TRAIN \<noteq> 0 then
        (if sint (clock - last_ack (ca sk)) \<le> sint (hystart_ack_delta p) then
           (let c1 = (ca sk)\<lparr>last_ack := clock\<rparr> in
            if drop_bit 4 (delay_min c1) < clock - round_start c1
            then sk\<lparr>ca := c1\<lparr>found := found c1 OR HYSTART_ACK_TRAIN\<rparr>,
                    tp := (tp sk)\<lparr>snd_ssthresh := snd_cwnd (tp sk)\<rparr>\<rparr>
            else sk\<lparr>ca := c1\<rparr>)
         else sk)
      else sk)"

text \<open>The delay block of \<open>hystart_update\<close> (lines 449-478).\<close>

definition hystart_delay :: "params \<Rightarrow> sock \<Rightarrow> u32 \<Rightarrow> sock" where
  "hystart_delay p sk delay =
     (if hystart_detect p AND ucast HYSTART_DELAY \<noteq> 0 then
        (let c1 = (if delay < curr_rtt (ca sk) then (ca sk)\<lparr>curr_rtt := delay\<rparr> else ca sk) in
         if sample_cnt c1 < HYSTART_MIN_SAMPLES then
           (let c2 = (if curr_rtt c1 = 0 \<or> delay < curr_rtt c1
                      then c1\<lparr>curr_rtt := delay\<rparr> else c1)
            in sk\<lparr>ca := c2\<lparr>sample_cnt := sample_cnt c2 + 1\<rparr>\<rparr>)
         else if delay_min c1 + HYSTART_DELAY_THRESH p (drop_bit 3 (delay_min c1)) < curr_rtt c1
           then sk\<lparr>ca := c1\<lparr>found := found c1 OR HYSTART_DELAY\<rparr>,
                   tp := (tp sk)\<lparr>snd_ssthresh := snd_cwnd (tp sk)\<rparr>\<rparr>
         else sk\<lparr>ca := c1\<rparr>)
      else sk)"

text \<open>
  \<open>hystart_update\<close> (lines 412-479).  In \<open>ca->found & hystart_detect\<close> the \<open>u8\<close> is
  promoted to \<open>int\<close>.
\<close>

definition hystart_update :: "params \<Rightarrow> sock \<Rightarrow> u32 \<Rightarrow> u32 \<Rightarrow> sock" where
  "hystart_update p sk delay clock =
     (if ucast (found (ca sk)) AND hystart_detect p \<noteq> 0 then sk
      else hystart_delay p (hystart_ack_train p sk clock) delay)"

text \<open>
  \<open>bictcp_acked\<close> (lines 484-627), with \<open>rtt_us\<close> the field of the \<open>ack_sample\<close>,
  \<open>now\<close> the value of \<open>tcp_jiffies32\<close> and \<open>clock\<close> that of \<open>bictcp_clock()\<close>.
  \<open>USEC_PER_MSEC\<close> is \<open>1000L\<close>, so the division is a signed one, which truncates.
  The variance and the standard deviation that the function derives from
  \<open>tp->sdev_stats\<close> (lines 513-553) reach only \<open>printk\<close> and the static \<open>rtt_sdev_ms\<close>,
  which nothing reads; they are no part of the socket's state and are left out.
\<close>

definition bictcp_acked :: "params \<Rightarrow> kernel \<Rightarrow> sock \<Rightarrow> s32 \<Rightarrow> u32 \<Rightarrow> u32 \<Rightarrow> sock" where
  "bictcp_acked p k sk rtt_us now clock =
     (if sint rtt_us < 0 then sk
      else if epoch_start (ca sk) \<noteq> 0 \<and> sint (now - epoch_start (ca sk)) < HZ k then sk
      else
        (let d = (word_of_int (sint (push_bit 3 rtt_us) sdiv 1000) :: u32);
             delay = (if d = 0 then 1 else d)
         in if hystart p \<noteq> 0 \<and> tcp_in_slow_start k (tp sk)
               \<and> hystart_low_window p \<le> snd_cwnd (tp sk)
            then hystart_update p sk delay clock
            else sk))"

section \<open>Registration and the reachable states\<close>

text \<open>
  \<open>cubictcp_register\<close> (lines 641-674) precomputes the scale factors.  The divisions of
  \<open>beta_scale\<close> are divisions of \<open>int\<close>s; \<open>do_div\<close> divides the 64-bit \<open>cube_factor\<close>
  by a 32-bit value.  A zero divisor is \<open>None\<close>.
\<close>

definition cubictcp_register :: "params \<Rightarrow> params option" where
  "cubictcp_register p =
     (if sint (BICTCP_BETA_SCALE - beta p) = 0 \<or> bic_scale p * 10 = 0 then None
      else Some (p\<lparr>
        beta_scale := word_of_int
          ((sint (8 * (BICTCP_BETA_SCALE + beta p)) sdiv 3) sdiv sint (BICTCP_BETA_SCALE - beta p)),
        cube_rtt_scale := bic_scale p * 10,
        cube_factor := push_bit (10 + 3 * BICTCP_HZ) 1 div ucast (bic_scale p * 10)\<rparr>))"

text \<open>The initial values of the module parameters (lines 47-64).\<close>

definition module_defaults :: params where
  "module_defaults = \<lparr>fast_convergence = 1, beta = 717, initial_ssthresh = 0, bic_scale = 41,
     tcp_friendliness = 1, hystart = 1, hystart_detect = 3, hystart_low_window = 16,
     hystart_ack_delta = 2, hystart_delay_max = 1, cube_rtt_scale = 0, beta_scale = 0,
     cube_factor = 0\<rparr>"

text \<open>The same parameters once \<open>cubictcp_register\<close> has run.\<close>

definition registered_defaults :: params where
  "registered_defaults = module_defaults\<lparr>beta_scale := 15, cube_rtt_scale := 410,
     cube_factor := 2681735677\<rparr>"

text \<open>
  The states of a socket that the callbacks of \<open>cubictcp\<close> (lines 629-639) can produce:
  \<open>init\<close> runs first, on whatever the private area holds; then the callbacks run in any
  order with any arguments, and between them the stack may change its own part of the
  socket (which is all that \<open>undo_cwnd = tcp_reno_undo_cwnd\<close> does).
\<close>

inductive reachable :: "params \<Rightarrow> kernel \<Rightarrow> sock \<Rightarrow> bool" for p :: params and k :: kernel where
  r_init: "reachable p k (bictcp_init p sk clock)"
| r_ssthresh: "reachable p k sk \<Longrightarrow> reachable p k (fst (bictcp_recalc_ssthresh p sk))"
| r_cong_avoid: "reachable p k sk \<Longrightarrow> bictcp_cong_avoid p k sk ack acked now clock = Some sk'
    \<Longrightarrow> reachable p k sk'"
| r_set_state: "reachable p k sk \<Longrightarrow> reachable p k (bictcp_state sk new_state clock)"
| r_cwnd_event: "reachable p k sk \<Longrightarrow> reachable p k (bictcp_cwnd_event sk event now)"
| r_pkts_acked: "reachable p k sk \<Longrightarrow> reachable p k (bictcp_acked p k sk rtt_us now clock)"
| r_stack: "reachable p k sk \<Longrightarrow> reachable p k (sk\<lparr>tp := t\<rparr>)"

text \<open>
  A kernel to evaluate the model on: 1000 ticks per second, so that a tick is a
  millisecond, a stack that is always window-limited, slow start below the threshold,
  and helpers that leave the window to the caller.
\<close>

definition kernel_1000 :: kernel where
  "kernel_1000 = \<lparr>HZ = 1000, msecs_to_jiffies = ucast,
     tcp_is_cwnd_limited = (\<lambda>t. True),
     tcp_in_slow_start = (\<lambda>t. snd_cwnd t < snd_ssthresh t),
     tcp_slow_start = (\<lambda>t acked. (t, acked)),
     tcp_cong_avoid_ai = (\<lambda>t w acked. t)\<rparr>"

section \<open>Specification formulas, scenarios and invariants\<close>

text \<open>
  The relative error of the cube of the result is below 0.5 percent:
  \<open>|r^3 - a| / a < 5 / 1000\<close>, written without division.
\<close>

definition cube_error_ok :: "u64 \<Rightarrow> bool" where
  "cube_error_ok a =
     (case cubic_root a of None \<Rightarrow> False
      | Some r \<Rightarrow> 200 * \<bar>int (unat r) ^ 3 - int (unat a)\<bar> < int (unat a))"

text \<open>
  The second branch of \<open>cubic_root\<close> on natural numbers.  \<open>seed_of b s\<close> is the seed
  \<open>((v[s] + 10) << b) >> 6\<close> for the exponent \<open>b\<close> and the table index \<open>s\<close>, and
  \<open>newton x a\<close> is the Newton-Raphson step \<open>((2 * x + a / (x * (x - 1))) * 341) >> 10\<close>
  without overflow.
\<close>

definition seed_of :: "nat \<Rightarrow> nat \<Rightarrow> nat" where
  "seed_of b s = (unat (cubic_root_v ! s) + 10) * 2 ^ b div 64"

definition newton :: "nat \<Rightarrow> nat \<Rightarrow> nat" where
  "newton x a = (2 * x + a div (x * (x - 1))) * 341 div 1024"

text \<open>
  A check of the error bound on all inputs \<open>lo \<le> a < hi\<close> that share the seed \<open>x\<close>,
  by the results \<open>r\<close> of the Newton-Raphson step rather than by the inputs.  With
  \<open>d = x * (x - 1)\<close> and \<open>t = 2 * x\<close>, the inputs whose result is \<open>r\<close> have
  \<open>341 * (t + a div d)\<close> between \<open>1024 * r\<close> and \<open>1024 * (r + 1)\<close>; when \<open>K\<close> is the least
  number with \<open>1024 * r \<le> 341 * K\<close> and \<open>K'\<close> the least with \<open>1024 * (r + 1) \<le> 341 * K'\<close>
  they lie between \<open>d * (K - t)\<close> and \<open>d * (K' - t) - 1\<close>.  \<open>r_range_ok\<close> checks
  \<open>199 * a < 200 * r^3 < 201 * a\<close> at the two ends of that range, for every \<open>r\<close> from
  the given one to \<open>j\<close>.
\<close>

function r_range_ok :: "nat \<Rightarrow> nat \<Rightarrow> nat \<Rightarrow> nat \<Rightarrow> nat \<Rightarrow> nat \<Rightarrow> nat \<Rightarrow> bool" where
  "r_range_ok d t lo hi r K j =
     (if r \<le> j then
        (let K' = (if 1024 * (r + 1) \<le> 341 * (K + 3) then K + 3 else K + 4)
         in 341 * K' < 1024 * (r + 1) + 341 \<and> 1024 * (r + 1) \<le> 341 * K'
            \<and> 200 * r ^ 3 < 201 * max lo (d * (K - t))
            \<and> 199 * min (hi - 1) (d * (K' - t) - 1) < 200 * r ^ 3
            \<and> r_range_ok d t lo hi (r + 1) K' j)
      else True)"
  by pat_completeness auto
termination by (relation "measure (\<lambda>(d, t, lo, hi, r, K, j). Suc j - r)") auto

declare r_range_ok.simps [simp del]

definition cell_ok :: "nat \<Rightarrow> nat \<Rightarrow> nat \<Rightarrow> bool" where
  "cell_ok x lo hi \<longleftrightarrow>
     (let d = x * (x - 1); r0 = newton x lo
      in 1 < x \<and> lo < hi \<and> (2 * x + (hi - 1) div d) * 341 < 2 ^ 32
         \<and> r_range_ok d (2 * x) lo hi r0 ((1024 * r0 + 340) div 341) (newton x (hi - 1)))"

text \<open>
  The same check on the cells of the table indices \<open>i\<close> to \<open>j\<close> for the exponent \<open>b\<close>:
  the cell of the index \<open>s\<close> holds the inputs from \<open>s * 2^(3 * b)\<close> to
  \<open>(s + 1) * 2^(3 * b) - 1\<close>.
\<close>

function cells_ok :: "nat \<Rightarrow> nat \<Rightarrow> nat \<Rightarrow> bool" where
  "cells_ok b i j =
     (if i \<le> j
      then cell_ok (seed_of b i) (i * 2 ^ (3 * b)) ((i + 1) * 2 ^ (3 * b)) \<and> cells_ok b (i + 1) j
      else True)"
  by pat_completeness auto
termination by (relation "measure (\<lambda>(b, i, j). Suc j - i)") auto

declare cells_ok.simps [simp del]

text \<open>
  The two formulas of the loss response as the specification words them, on unbounded
  natural numbers: the returned threshold \<open>max(current_window * beta / 1024, 2)\<close> and
  the fast-convergence window \<open>current_window * (1024 + beta) / (2 * 1024)\<close>.
\<close>

definition spec_recalc_threshold :: "nat \<Rightarrow> nat \<Rightarrow> nat" where
  "spec_recalc_threshold w b = max (w * b div 1024) 2"

definition spec_fast_convergence :: "nat \<Rightarrow> nat \<Rightarrow> nat" where
  "spec_fast_convergence w b = w * (1024 + b) div (2 * 1024)"

text \<open>A private area filled with zeros, and a socket around it with a given window and threshold.\<close>

definition zero_ca :: bictcp where
  "zero_ca = \<lparr>cnt = 0, last_max_cwnd = 0, last_cwnd = 0, last_time = 0, bic_origin_point = 0,
     bic_K = 0, delay_min = 0, epoch_start = 0, ack_cnt = 0, tcp_cwnd = 0, unused = 0,
     sample_cnt = 0, found = 0, round_start = 0, end_seq = 0, last_ack = 0, curr_rtt = 0\<rparr>"

definition sock_of :: "u32 \<Rightarrow> u32 \<Rightarrow> bictcp \<Rightarrow> sock" where
  "sock_of cwnd ssthresh c =
     \<lparr>tp = \<lparr>snd_cwnd = cwnd, snd_ssthresh = ssthresh, snd_nxt = 0, lsndtime = 0\<rparr>, ca = c\<rparr>"

text \<open>
  The threshold of the delay detector as the specification words it, on natural numbers
  in the unit of \<open>delay_min\<close> (an eighth of a millisecond):
  \<open>clamp(min_delay / 8, 32, 128)\<close>, without the upper bound when the clamp is off.
\<close>

definition spec_delay_thresh :: "bool \<Rightarrow> nat \<Rightarrow> nat" where
  "spec_delay_thresh clamped m = (if clamped then min (max (m div 8) 32) 128 else max (m div 8) 32)"

text \<open>The running minimum of a round, in which 0 stands for "no sample yet".\<close>

definition round_min :: "u32 \<Rightarrow> u32 \<Rightarrow> u32" where
  "round_min c d = (if c = 0 then d else min c d)"

text \<open>A run of RTT samples given to \<open>hystart_update\<close>, each with the clock of its arrival.\<close>

fun hystart_samples :: "params \<Rightarrow> sock \<Rightarrow> (u32 \<times> u32) list \<Rightarrow> sock" where
  "hystart_samples p sk [] = sk"
| "hystart_samples p sk ((delay, clock) # ds) =
     hystart_samples p (hystart_update p sk delay clock) ds"

text \<open>
  A run of the two per-ACK callbacks: \<open>pkts_acked\<close> with the RTT of the sample, the
  jiffies and the clock, and \<open>cong_avoid\<close> with the acknowledged sequence number, the
  number of packets, the jiffies and the clock.
\<close>

datatype callback = Pkts_acked s32 u32 u32 | Cong_avoid u32 u32 u32 u32

fun is_pkts_acked :: "callback \<Rightarrow> bool" where
  "is_pkts_acked (Pkts_acked r n c) = True"
| "is_pkts_acked (Cong_avoid a m n c) = False"

fun run_callbacks :: "params \<Rightarrow> kernel \<Rightarrow> sock \<Rightarrow> callback list \<Rightarrow> sock option" where
  "run_callbacks p k sk [] = Some sk"
| "run_callbacks p k sk (Pkts_acked r n c # cs) = run_callbacks p k (bictcp_acked p k sk r n c) cs"
| "run_callbacks p k sk (Cong_avoid a m n c # cs) =
     Option.bind (bictcp_cong_avoid p k sk a m n c) (\<lambda>sk'. run_callbacks p k sk' cs)"

text \<open>
  The scenario of the delay detector: a window of 50 below a threshold of 1000,
  \<open>delay_min = 400\<close> (50 ms), a fresh round, and eight samples of 560 (70 ms) that
  arrive 100 ms apart.
\<close>

definition delay_scenario_sock :: sock where
  "delay_scenario_sock = sock_of 50 1000 (zero_ca\<lparr>delay_min := 400\<rparr>)"

definition delay_scenario_samples :: "(u32 \<times> u32) list" where
  "delay_scenario_samples =
     [(560, 100), (560, 200), (560, 300), (560, 400), (560, 500), (560, 600), (560, 700), (560, 800)]"

definition delay_only :: "params \<Rightarrow> params" where
  "delay_only p = p\<lparr>hystart_detect := 2\<rparr>"

text \<open>
  The two guards of \<open>bictcp_update\<close> (lines 245-246 and 253): the rate limit, which
  returns at once, and the limit of one cubic update per jiffy, which jumps to the
  friendliness part.
\<close>

definition rate_limited :: "kernel \<Rightarrow> bictcp \<Rightarrow> u32 \<Rightarrow> u32 \<Rightarrow> bool" where
  "rate_limited k c cwnd now \<longleftrightarrow> last_cwnd c = cwnd \<and> sint (now - last_time c) \<le> HZ k sdiv 32"

definition once_per_jiffy :: "bictcp \<Rightarrow> u32 \<Rightarrow> bool" where
  "once_per_jiffy c now \<longleftrightarrow> epoch_start c \<noteq> 0 \<and> now = last_time c"

text \<open>
  The floor of \<open>cnt\<close> as an invariant of the private area: once \<open>last_cwnd\<close> holds a
  window, \<open>cnt\<close> is at least 2.
\<close>

definition cnt_floor :: "bictcp \<Rightarrow> bool" where
  "cnt_floor c \<longleftrightarrow> (last_cwnd c \<noteq> 0 \<longrightarrow> 2 \<le> cnt c)"

text \<open>
  The step of the Reno estimate as the specification words it: one more segment for
  every \<open>(3 * current_window) / 8\<close> acknowledged packets.
\<close>

definition spec_reno_step :: "nat \<Rightarrow> nat" where
  "spec_reno_step w = 3 * w div 8"

text \<open>
  Two private areas to evaluate \<open>bictcp_update\<close> on.  In the first the Reno estimate
  equals a window of 8 and 10 acknowledged packets are counted.  The second is inside an
  epoch, last updated in jiffy 100 at a window of 19, with a Reno estimate of 21 and 35
  acknowledged packets counted.
\<close>

definition reno_scenario :: bictcp where
  "reno_scenario = zero_ca\<lparr>cnt := 100, ack_cnt := 10, tcp_cwnd := 8\<rparr>"

definition jiffy_scenario :: bictcp where
  "jiffy_scenario = zero_ca\<lparr>cnt := 20, last_max_cwnd := 30, last_cwnd := 19, last_time := 100,
     bic_origin_point := 30, epoch_start := 50, ack_cnt := 35, tcp_cwnd := 21\<rparr>"

text \<open>
  A socket in slow start (window 20, threshold 100) right after \<open>bictcp_init\<close> with the
  registered default parameters; the private area held a stale \<open>delay_min\<close> before.
\<close>

definition fresh_sock :: sock where
  "fresh_sock = bictcp_init registered_defaults (sock_of 20 100 (zero_ca\<lparr>delay_min := 400\<rparr>)) 0"

text \<open>
  When \<open>bictcp_cong_avoid\<close> reaches \<open>bictcp_update\<close>, and with which window: the socket
  is window-limited and, in slow start, \<open>tcp_slow_start\<close> leaves some of the
  acknowledged packets over; the window is \<open>tp->snd_cwnd\<close> as \<open>tcp_slow_start\<close> left it.
\<close>

definition reaches_update :: "kernel \<Rightarrow> sock \<Rightarrow> u32 \<Rightarrow> bool" where
  "reaches_update k sk acked \<longleftrightarrow>
     tcp_is_cwnd_limited k (tp sk)
     \<and> (if tcp_in_slow_start k (tp sk) then snd (tcp_slow_start k (tp sk) acked) \<noteq> 0 else True)"

definition update_window :: "kernel \<Rightarrow> sock \<Rightarrow> u32 \<Rightarrow> u32" where
  "update_window k sk acked =
     (if tcp_in_slow_start k (tp sk) then snd_cwnd (fst (tcp_slow_start k (tp sk) acked))
      else snd_cwnd (tp sk))"

section \<open>Properties of the cube root\<close>

lemma unat_ucast_small:
  "unat w < 2 ^ LENGTH('b) \<Longrightarrow> unat (ucast w :: 'b::len word) = unat w"
  by (simp add: unsigned_ucast_eq take_bit_nat_eq_self)

lemma fls_0: "fls 0 = 0"
  by (simp add: fls.simps)

lemma fls_bound: "n < 2 ^ fls n"
proof (induction n rule: fls.induct)
  case (1 n)
  show ?case
  proof (cases "n = 0")
    case True then show ?thesis by (simp add: fls.simps)
  next
    case False
    with 1 have "n div 2 < 2 ^ fls (n div 2)" by simp
    then have "n < 2 * 2 ^ fls (n div 2)" by arith
    with False show ?thesis by (subst fls.simps) simp
  qed
qed
lemma fls_lower: "n \<noteq> 0 \<Longrightarrow> 2 ^ (fls n - 1) \<le> n"
proof (induction n rule: fls.induct)
  case (1 n)
  show ?case
  proof (cases "n div 2 = 0")
    case True
    with 1(2) have "n = 1" by arith
    then show ?thesis by (simp add: fls.simps)
  next
    case False
    with 1 have ih: "2 ^ (fls (n div 2) - 1) \<le> n div 2" by simp
    from False have "fls (n div 2) \<noteq> 0" by (subst fls.simps) simp
    then have "(2::nat) ^ fls (n div 2) = 2 * 2 ^ (fls (n div 2) - 1)"
      by (cases "fls (n div 2)") simp_all
    with ih have "(2::nat) ^ fls (n div 2) \<le> n" by arith
    with 1(2) show ?thesis by (subst fls.simps) simp
  qed
qed
lemma fls_le: "n < 2 ^ k \<Longrightarrow> fls n \<le> k"
proof (cases "n = 0")
  case True then show ?thesis by (simp add: fls.simps)
next
  case False
  assume "n < 2 ^ k"
  with fls_lower[OF False] have "(2::nat) ^ (fls n - 1) < 2 ^ k" by (rule le_less_trans)
  then have "fls n - 1 < k" by simp
  then show ?thesis by simp
qed
lemma q_bounds: "7 \<le> b \<Longrightarrow> b \<le> 64 \<Longrightarrow> 3 * ((b * 84) div 256 - 1) + 4 \<le> b \<and> b \<le> 3 * ((b * 84) div 256 - 1) + 6 \<and> 1 \<le> (b * 84) div 256 - 1 \<and> (b * 84) div 256 - 1 \<le> 20" for b :: nat
  by arith

lemma fls_unat_le: "fls (unat (a :: u64)) \<le> 64"
proof -
  have "unat a < 2 ^ 64" using unsigned_less [of a] by simp
  then show ?thesis by (rule fls_le)
qed

lemma unat_fls64: "unat (fls64 a) = fls (unat a)"
  using fls_unat_le [of a] by (simp add: fls64_def unat_of_nat)

lemma fls64_small: assumes "fls64 a < 7" shows "unat a < 64"
proof -
  from assms have "fls (unat a) \<le> 6" by (simp add: word_less_nat_alt unat_fls64)
  then have "(2::nat) ^ fls (unat a) \<le> 2 ^ 6" by (rule power_increasing) simp
  with fls_bound [of "unat a"] show ?thesis by simp
qed

lemma unat_cubic_root_b:
  assumes "\<not> fls64 a < 7"
  shows "unat (cubic_root_b a) = fls (unat a) * 84 div 256 - 1"
    and "7 \<le> fls (unat a)"
proof -
  let ?B = "fls (unat a)"
  from assms show B7: "7 \<le> ?B" by (simp add: word_less_nat_alt unat_fls64)
  have B64: "?B \<le> 64" by (rule fls_unat_le)
  have m: "unat (fls64 a * 84) = ?B * 84"
    using B64 by (simp add: unat_word_ariths unat_fls64)
  have "unat (drop_bit 8 (fls64 a * 84)) = drop_bit 8 (unat (fls64 a * 84))"
    by (rule unat_drop_bit_eq)
  also have "\<dots> = unat (fls64 a * 84) div 2 ^ 8" by (rule drop_bit_eq_div)
  finally have d: "unat (drop_bit 8 (fls64 a * 84)) = ?B * 84 div 256" by (simp add: m)
  from B7 have "1 \<le> ?B * 84 div 256" by arith
  with d have nz: "drop_bit 8 (fls64 a * 84) \<noteq> 0" by (metis not_one_le_zero unat_eq_zero unsigned_0)
  show "unat (cubic_root_b a) = ?B * 84 div 256 - 1"
    unfolding cubic_root_b_def by (simp add: unat_minus_one [OF nz] d)
qed

lemma cubic_root_shift_bounds:
  assumes "\<not> fls64 a < 7"
  shows "8 \<le> unat (cubic_root_shift a) \<and> unat (cubic_root_shift a) < 64"
proof -
  let ?B = "fls (unat a)" and ?q = "unat (cubic_root_b a)"
  note qb = unat_cubic_root_b [OF assms]
  have B64: "?B \<le> 64" by (rule fls_unat_le)
  from q_bounds [OF qb(2) B64] qb(1)
  have q: "3 * ?q + 4 \<le> ?B" "?B \<le> 3 * ?q + 6" "?q \<le> 20" by simp_all
  have q3: "unat (cubic_root_b a * 3) = 3 * ?q"
    using q(3) by (simp add: unat_word_ariths)
  have "unat (drop_bit (3 * ?q) a) = drop_bit (3 * ?q) (unat a)"
    by (rule unat_drop_bit_eq)
  also have "\<dots> = unat a div 2 ^ (3 * ?q)" by (rule drop_bit_eq_div)
  finally have sh: "unat (drop_bit (3 * ?q) a) = unat a div 2 ^ (3 * ?q)" .
  have "unat a < 2 ^ ?B" by (rule fls_bound)
  also have "(2::nat) ^ ?B \<le> 2 ^ (3 * ?q + 6)" using q(2) by (rule power_increasing) simp
  finally have "unat a < 2 ^ (3 * ?q) * 64" by (simp add: power_add)
  then have up: "unat a div 2 ^ (3 * ?q) < 64" by (simp add: less_mult_imp_div_less mult.commute)
  have "unat a \<noteq> 0"
  proof
    assume "unat a = 0"
    with qb(2) show False by (simp add: fls_0)
  qed
  then have "2 ^ (?B - 1) \<le> unat a" by (rule fls_lower)
  moreover have "(2::nat) ^ (3 * ?q + 3) \<le> 2 ^ (?B - 1)" using q(1) by (intro power_increasing) simp_all
  ultimately have "8 * 2 ^ (3 * ?q) \<le> unat a" by (simp add: power_add)
  then have lo: "8 \<le> unat a div 2 ^ (3 * ?q)"
    by (simp add: less_eq_div_iff_mult_less_eq)
  have "unat (cubic_root_shift a) = unat a div 2 ^ (3 * ?q)"
    unfolding cubic_root_shift_def q3 using up sh by (simp add: unat_ucast_small)
  with lo up show ?thesis by simp
qed

lemma cubic_root_v_length: "length cubic_root_v = 64"
  by (simp add: cubic_root_v_def)

lemma cubic_root_v_tail: "\<forall>w \<in> set (drop 8 cubic_root_v). 123 \<le> unat w"
  by (simp add: cubic_root_v_def)

lemma cubic_root_v_entry:
  assumes "8 \<le> i" "i < 64"
  shows "123 \<le> unat (cubic_root_v ! i)"
proof -
  from assms have "cubic_root_v ! i = drop 8 cubic_root_v ! (i - 8)"
    by (simp add: cubic_root_v_length)
  moreover from assms have "drop 8 cubic_root_v ! (i - 8) \<in> set (drop 8 cubic_root_v)"
    by (intro nth_mem) (simp add: cubic_root_v_length)
  ultimately show ?thesis using cubic_root_v_tail by simp
qed

lemma cubic_root_seed_bounds:
  assumes "\<not> fls64 a < 7"
  shows "4 \<le> unat (cubic_root_seed a) \<and> unat (cubic_root_seed a) < 2 ^ 23"
proof -
  let ?q = "unat (cubic_root_b a)" and ?t = "cubic_root_v ! unat (cubic_root_shift a)"
  note qb = unat_cubic_root_b [OF assms]
  have B64: "fls (unat a) \<le> 64" by (rule fls_unat_le)
  from q_bounds [OF qb(2) B64] qb(1) have q: "1 \<le> ?q" "?q \<le> 20" by simp_all
  from cubic_root_shift_bounds [OF assms] have t_lo: "123 \<le> unat ?t"
    by (intro cubic_root_v_entry) simp_all
  have t_hi: "unat ?t < 256" using unsigned_less [of ?t] by simp
  have w: "unat (ucast ?t + 10 :: u32) = unat ?t + 10"
    using t_hi by (simp add: unat_word_ariths unat_ucast_small)
  have p2: "(2::nat) ^ ?q \<le> 2 ^ 20" using q(2) by (rule power_increasing) simp
  have "(unat ?t + 10) * 2 ^ ?q \<le> 266 * 2 ^ 20"
    using t_hi p2 by (intro mult_mono) simp_all
  then have small: "(unat ?t + 10) * 2 ^ ?q < 2 ^ 32" by simp
  have "unat (push_bit ?q (ucast ?t + 10 :: u32))
      = take_bit 32 (push_bit ?q (unat (ucast ?t + 10 :: u32)))"
    by (simp add: unsigned_push_bit_eq)
  also have "\<dots> = take_bit 32 ((unat ?t + 10) * 2 ^ ?q)"
    by (simp only: w push_bit_eq_mult)
  also have "\<dots> = (unat ?t + 10) * 2 ^ ?q"
    using small by (rule take_bit_nat_eq_self)
  finally have "unat (push_bit ?q (ucast ?t + 10 :: u32)) = (unat ?t + 10) * 2 ^ ?q" .
  moreover have "unat (drop_bit 6 (push_bit ?q (ucast ?t + 10 :: u32)))
      = drop_bit 6 (unat (push_bit ?q (ucast ?t + 10 :: u32)))"
    by (rule unat_drop_bit_eq)
  moreover have "drop_bit 6 (unat (push_bit ?q (ucast ?t + 10 :: u32)))
      = unat (push_bit ?q (ucast ?t + 10 :: u32)) div 2 ^ 6"
    by (rule drop_bit_eq_div)
  ultimately have x: "unat (cubic_root_seed a) = (unat ?t + 10) * 2 ^ ?q div 64"
    by (simp add: cubic_root_seed_def)
  have "(2::nat) ^ 1 \<le> 2 ^ ?q" using q(1) by (intro power_increasing) simp_all
  with t_lo have "133 * 2 \<le> (unat ?t + 10) * 2 ^ ?q" by (intro mult_mono) simp_all
  then have lo: "4 \<le> (unat ?t + 10) * 2 ^ ?q div 64" by simp
  from \<open>(unat ?t + 10) * 2 ^ ?q \<le> 266 * 2 ^ 20\<close>
  have hi: "(unat ?t + 10) * 2 ^ ?q div 64 < 2 ^ 23" by simp
  from x lo hi show ?thesis by simp
qed

lemma cubic_root_divisor:
  assumes "\<not> fls64 a < 7"
  shows "(ucast (cubic_root_seed a) :: u64) * (ucast (cubic_root_seed a - 1) :: u64) \<noteq> 0"
proof -
  let ?x = "cubic_root_seed a"
  from cubic_root_seed_bounds [OF assms] have b: "4 \<le> unat ?x" "unat ?x < 2 ^ 23" by simp_all
  then have "?x \<noteq> 0" by auto
  then have x1: "unat (?x - 1) = unat ?x - 1" by (rule unat_minus_one)
  have u1: "unat (ucast ?x :: u64) = unat ?x" using b(2) by (simp add: unat_ucast_small)
  have u2: "unat (ucast (?x - 1) :: u64) = unat ?x - 1" using b(2) by (simp add: unat_ucast_small x1)
  have "unat ?x * (unat ?x - 1) \<le> 2 ^ 23 * 2 ^ 23" using b by (intro mult_mono) simp_all
  then have "unat ?x * (unat ?x - 1) < 2 ^ 64" by simp
  then have "unat ((ucast ?x :: u64) * (ucast (?x - 1) :: u64)) = unat ?x * (unat ?x - 1)"
    by (simp add: unat_word_ariths u1 u2)
  moreover have "4 * 3 \<le> unat ?x * (unat ?x - 1)" using b by (intro mult_mono) simp_all
  ultimately have "unat ((ucast ?x :: u64) * (ucast (?x - 1) :: u64)) \<noteq> 0" by linarith
  then show ?thesis by (simp add: unat_eq_zero)
qed

lemma cubic_root_returns: "\<exists>r. cubic_root a = Some r"
proof (cases "fls64 a < 7")
  case True
  from fls64_small [OF True] have "unat (ucast a :: u32) < 64" by (simp add: unat_ucast_small)
  with True show ?thesis by (simp add: cubic_root_def cubic_root_v_length)
next
  case False
  from cubic_root_shift_bounds [OF False] cubic_root_divisor [OF False] False
  show ?thesis by (simp add: cubic_root_def cubic_root_v_length Let_def)
qed

lemma fls_numeral [simp]:
  "fls (numeral (Num.Bit0 n)) = Suc (fls (numeral n))"
  "fls (numeral (Num.Bit1 n)) = Suc (fls (numeral n))"
  "fls (Suc 0) = Suc 0"
  by (subst fls.simps, simp add: fls_0)+

lemmas cubic_root_eval = cubic_root_def fls64_def cubic_root_b_def cubic_root_shift_def
  cubic_root_seed_def cubic_root_v_def Let_def

text \<open>
  C10.  \<open>cubic_root\<close> returns a value on every 64-bit input.  When the bit length of
  the input is below 7 the input is at most 63 and indexes the table inside its 64
  entries.  Otherwise the table index \<open>shift\<close> is below 64, the seed of the
  Newton-Raphson step is at least 2 and the divisor \<open>x * (x - 1)\<close>, computed in 64
  bits, is not zero.
\<close>

theorem cubic_root_total:
  "(\<exists>r. cubic_root a = Some r)
   \<and> (fls64 a < 7 \<longrightarrow> unat a \<le> 63 \<and> unat (ucast a :: u32) < length cubic_root_v)
   \<and> (\<not> fls64 a < 7 \<longrightarrow>
        unat (cubic_root_shift a) < length cubic_root_v
        \<and> 2 \<le> unat (cubic_root_seed a)
        \<and> (ucast (cubic_root_seed a) :: u64) * (ucast (cubic_root_seed a - 1) :: u64) \<noteq> 0)"
proof (intro conjI impI)
  show "\<exists>r. cubic_root a = Some r" by (rule cubic_root_returns)
next
  assume "fls64 a < 7"
  then have "unat a < 64" by (rule fls64_small)
  then show "unat a \<le> 63" by simp
  from \<open>unat a < 64\<close> show "unat (ucast a :: u32) < length cubic_root_v"
    by (simp add: unat_ucast_small cubic_root_v_length)
next
  assume b: "\<not> fls64 a < 7"
  from cubic_root_shift_bounds [OF b]
  show "unat (cubic_root_shift a) < length cubic_root_v" by (simp add: cubic_root_v_length)
  from cubic_root_seed_bounds [OF b] show "2 \<le> unat (cubic_root_seed a)" by simp
  from b show "(ucast (cubic_root_seed a) :: u64) * (ucast (cubic_root_seed a - 1) :: u64) \<noteq> 0"
    by (rule cubic_root_divisor)
qed

theorem cubic_root_total_witness:
  "fls64 5 < 7 \<and> unat (5 :: u64) \<le> 63 \<and> cubic_root 5 = Some 2
   \<and> \<not> fls64 1000 < 7 \<and> unat (cubic_root_shift 1000) < length cubic_root_v
   \<and> 2 \<le> unat (cubic_root_seed 1000) \<and> cubic_root 1000 = Some 10"
proof -
  have s: "fls64 5 < 7" by (simp add: fls64_def)
  have l: "\<not> fls64 1000 < 7" by (simp add: fls64_def)
  have r5: "cubic_root 5 = Some 2" by (simp add: cubic_root_eval)
  have r1000: "cubic_root 1000 = Some 10" by (simp add: cubic_root_eval)
  from cubic_root_total [of 5] s have a: "unat (5 :: u64) \<le> 63" by blast
  from cubic_root_total [of 1000] l
  have b: "unat (cubic_root_shift 1000) < length cubic_root_v \<and> 2 \<le> unat (cubic_root_seed 1000)"
    by blast
  from s l r5 r1000 a b show ?thesis by blast
qed

text \<open>The second branch of \<open>cubic_root\<close> on natural numbers, and the check of a cell.\<close>

lemma fls_greater: "2 ^ k \<le> n \<Longrightarrow> k < fls n"
proof -
  assume "2 ^ k \<le> n"
  also have "n < 2 ^ fls n" by (rule fls_bound)
  finally show ?thesis by simp
qed

lemma unat_cubic_root_shift:
  assumes "\<not> fls64 a < 7"
  shows "unat (cubic_root_shift a) = unat a div 2 ^ (3 * unat (cubic_root_b a))"
proof -
  let ?B = "fls (unat a)" and ?q = "unat (cubic_root_b a)"
  note qb = unat_cubic_root_b [OF assms]
  have B64: "?B \<le> 64" by (rule fls_unat_le)
  from q_bounds [OF qb(2) B64] qb(1)
  have q: "?B \<le> 3 * ?q + 6" "?q \<le> 20" by simp_all
  have q3: "unat (cubic_root_b a * 3) = 3 * ?q"
    using q(2) by (simp add: unat_word_ariths)
  have "unat (drop_bit (3 * ?q) a) = drop_bit (3 * ?q) (unat a)"
    by (rule unat_drop_bit_eq)
  also have "\<dots> = unat a div 2 ^ (3 * ?q)" by (rule drop_bit_eq_div)
  finally have sh: "unat (drop_bit (3 * ?q) a) = unat a div 2 ^ (3 * ?q)" .
  have "unat a < 2 ^ ?B" by (rule fls_bound)
  also have "(2::nat) ^ ?B \<le> 2 ^ (3 * ?q + 6)" using q(1) by (rule power_increasing) simp
  finally have "unat a < 2 ^ (3 * ?q) * 64" by (simp add: power_add)
  then have up: "unat a div 2 ^ (3 * ?q) < 64" by (simp add: less_mult_imp_div_less mult.commute)
  show ?thesis
    unfolding cubic_root_shift_def q3 using up sh by (simp add: unat_ucast_small)
qed

lemma unat_cubic_root_seed:
  assumes "\<not> fls64 a < 7"
  shows "unat (cubic_root_seed a) = seed_of (unat (cubic_root_b a)) (unat (cubic_root_shift a))"
proof -
  let ?q = "unat (cubic_root_b a)" and ?t = "cubic_root_v ! unat (cubic_root_shift a)"
  note qb = unat_cubic_root_b [OF assms]
  have B64: "fls (unat a) \<le> 64" by (rule fls_unat_le)
  from q_bounds [OF qb(2) B64] qb(1) have q: "?q \<le> 20" by simp
  have t_hi: "unat ?t < 256" using unsigned_less [of ?t] by simp
  have w: "unat (ucast ?t + 10 :: u32) = unat ?t + 10"
    using t_hi by (simp add: unat_word_ariths unat_ucast_small)
  have p2: "(2::nat) ^ ?q \<le> 2 ^ 20" using q by (rule power_increasing) simp
  have "(unat ?t + 10) * 2 ^ ?q \<le> 266 * 2 ^ 20"
    using t_hi p2 by (intro mult_mono) simp_all
  then have small: "(unat ?t + 10) * 2 ^ ?q < 2 ^ 32" by simp
  have "unat (push_bit ?q (ucast ?t + 10 :: u32))
      = take_bit 32 (push_bit ?q (unat (ucast ?t + 10 :: u32)))"
    by (simp add: unsigned_push_bit_eq)
  also have "\<dots> = take_bit 32 ((unat ?t + 10) * 2 ^ ?q)"
    by (simp only: w push_bit_eq_mult)
  also have "\<dots> = (unat ?t + 10) * 2 ^ ?q"
    using small by (rule take_bit_nat_eq_self)
  finally have "unat (push_bit ?q (ucast ?t + 10 :: u32)) = (unat ?t + 10) * 2 ^ ?q" .
  moreover have "unat (drop_bit 6 (push_bit ?q (ucast ?t + 10 :: u32)))
      = drop_bit 6 (unat (push_bit ?q (ucast ?t + 10 :: u32)))"
    by (rule unat_drop_bit_eq)
  moreover have "drop_bit 6 (unat (push_bit ?q (ucast ?t + 10 :: u32)))
      = unat (push_bit ?q (ucast ?t + 10 :: u32)) div 2 ^ 6"
    by (rule drop_bit_eq_div)
  ultimately show ?thesis
    by (simp add: cubic_root_seed_def seed_of_def)
qed

lemma unat_cubic_root_divisor:
  assumes "\<not> fls64 a < 7"
  shows "unat ((ucast (cubic_root_seed a) :: u64) * (ucast (cubic_root_seed a - 1) :: u64))
       = unat (cubic_root_seed a) * (unat (cubic_root_seed a) - 1)"
proof -
  let ?x = "cubic_root_seed a"
  from cubic_root_seed_bounds [OF assms] have b: "4 \<le> unat ?x" "unat ?x < 2 ^ 23" by simp_all
  then have "?x \<noteq> 0" by auto
  then have x1: "unat (?x - 1) = unat ?x - 1" by (rule unat_minus_one)
  have u1: "unat (ucast ?x :: u64) = unat ?x" using b(2) by (simp add: unat_ucast_small)
  have u2: "unat (ucast (?x - 1) :: u64) = unat ?x - 1" using b(2) by (simp add: unat_ucast_small x1)
  have "unat ?x * (unat ?x - 1) \<le> 2 ^ 23 * 2 ^ 23" using b by (intro mult_mono) simp_all
  then have "unat ?x * (unat ?x - 1) < 2 ^ 64" by simp
  then show ?thesis by (simp add: unat_word_ariths u1 u2)
qed

lemma unat_drop_bit_10: "unat (drop_bit 10 (w :: u32)) = unat w div 1024"
proof -
  have "unat (drop_bit 10 w) = drop_bit 10 (unat w)" by (rule unat_drop_bit_eq)
  also have "\<dots> = unat w div 2 ^ 10" by (rule drop_bit_eq_div)
  finally show ?thesis by simp
qed

lemma cubic_root_newton:
  assumes big: "\<not> fls64 a < 7"
    and fit: "(2 * unat (cubic_root_seed a)
                + unat a div (unat (cubic_root_seed a) * (unat (cubic_root_seed a) - 1))) * 341 < 2 ^ 32"
  shows "\<exists>w. cubic_root a = Some w \<and> unat w = newton (unat (cubic_root_seed a)) (unat a)"
proof -
  let ?x = "cubic_root_seed a"
  let ?d = "(ucast ?x :: u64) * (ucast (?x - 1) :: u64)"
  let ?X = "unat ?x"
  let ?q = "unat a div (?X * (?X - 1))"
  have d: "unat ?d = ?X * (?X - 1)" using big by (rule unat_cubic_root_divisor)
  have dnz: "?d \<noteq> 0" using big by (rule cubic_root_divisor)
  have q: "unat (a div ?d) = ?q" by (simp only: unat_div d)
  from fit have q32: "?q < 2 ^ 32" by simp
  define y :: u32 where "y = ucast (a div ?d)"
  have uq: "unat y = ?q"
    unfolding y_def using q32 q by (simp add: unat_ucast_small)
  from fit have s32: "2 * ?X + ?q < 2 ^ 32" by simp
  define x2 :: u32 where "x2 = 2 * ?x"
  have ux2: "unat x2 = 2 * ?X"
    unfolding x2_def using s32 by (simp add: unat_word_ariths)
  define x1 :: u32 where "x1 = x2 + y"
  have ux1: "unat x1 = 2 * ?X + ?q"
    unfolding x1_def using s32 by (simp add: unat_word_ariths(1) ux2 uq)
  have "unat (x1 * 341) = unat x1 * 341 mod 2 ^ 32"
    by (simp add: unat_word_ariths(2))
  also have "\<dots> = (2 * ?X + ?q) * 341 mod 2 ^ 32" by (simp only: ux1)
  also have "\<dots> = (2 * ?X + ?q) * 341" using fit by (rule mod_less)
  finally have m: "unat (x1 * 341) = (2 * ?X + ?q) * 341" .
  have r: "unat (drop_bit 10 (x1 * 341)) = newton ?X (unat a)"
    by (simp only: unat_drop_bit_10 m newton_def)
  have x1_eq: "x1 = 2 * ?x + (ucast (a div ?d) :: u32)"
    by (simp only: x1_def x2_def y_def)
  from cubic_root_shift_bounds [OF big] have sh: "unat (cubic_root_shift a) < length cubic_root_v"
    by (simp add: cubic_root_v_length)
  have "cubic_root a = Some (drop_bit 10 (x1 * 341))"
    unfolding x1_eq using big sh dnz by (simp add: cubic_root_def Let_def)
  with r show ?thesis by simp
qed

lemma newton_mono: "a \<le> a' \<Longrightarrow> newton x a \<le> newton x a'"
  unfolding newton_def by (intro div_le_mono mult_le_mono add_le_mono) simp_all

lemma r_range_ok_unfold:
  assumes "r_range_ok d t lo hi r K j" "r \<le> j"
    and "K' = (if 1024 * (r + 1) \<le> 341 * (K + 3) then K + 3 else K + 4)"
  shows "341 * K' < 1024 * (r + 1) + 341 \<and> 1024 * (r + 1) \<le> 341 * K'
            \<and> 200 * r ^ 3 < 201 * max lo (d * (K - t))
            \<and> 199 * min (hi - 1) (d * (K' - t) - 1) < 200 * r ^ 3
            \<and> r_range_ok d t lo hi (r + 1) K' j"
  using assms by (subst (asm) r_range_ok.simps) (simp add: Let_def)

lemma r_range_ok_sound:
  assumes "r_range_ok d t lo hi r K j"
    and "341 * K < 1024 * r + 341"
    and "r \<le> r'" "r' \<le> j"
    and "t \<le> k" "1024 * r' \<le> 341 * k" "341 * k < 1024 * (r' + 1)"
    and "d * (k - t) \<le> a" "a < d * (k - t) + d" "lo \<le> a" "a < hi"
  shows "200 * r' ^ 3 < 201 * a \<and> 199 * a < 200 * r' ^ 3"
  using assms(1-3)
proof (induction "r' - r" arbitrary: r K)
  case 0
  then have rr: "r = r'" by simp
  with 0 assms(4) have "r_range_ok d t lo hi r' K j" "r' \<le> j" by simp_all
  from r_range_ok_unfold [OF this refl] obtain K' where c: "1024 * (r' + 1) \<le> 341 * K'"
      "200 * r' ^ 3 < 201 * max lo (d * (K - t))"
      "199 * min (hi - 1) (d * (K' - t) - 1) < 200 * r' ^ 3"
    by blast
  from 0(3) rr assms(6) have "K \<le> k" by simp
  then have "d * (K - t) \<le> d * (k - t)" by (intro mult_le_mono) simp_all
  then have "d * (K - t) \<le> a" using assms(8) by (rule le_trans)
  with assms(10) have "max lo (d * (K - t)) \<le> a" by simp
  then have "201 * max lo (d * (K - t)) \<le> 201 * a" by (rule mult_le_mono2)
  with c(2) have lower: "200 * r' ^ 3 < 201 * a" by (rule less_le_trans)
  from c(1) assms(7) have "k + 1 \<le> K'" by simp
  with assms(5) have "k - t + 1 \<le> K' - t" by simp
  then have "d * (k - t + 1) \<le> d * (K' - t)" by (intro mult_le_mono) simp_all
  with assms(9) have "a \<le> d * (K' - t) - 1" by simp
  moreover from assms(11) have "a \<le> hi - 1" by simp
  ultimately have "a \<le> min (hi - 1) (d * (K' - t) - 1)" by simp
  then have "199 * a \<le> 199 * min (hi - 1) (d * (K' - t) - 1)" by (rule mult_le_mono2)
  from this c(3) have "199 * a < 200 * r' ^ 3" by (rule le_less_trans)
  with lower show ?case by simp
next
  case (Suc n)
  then have lt: "r < r'" by simp
  with assms(4) have "r \<le> j" by simp
  from r_range_ok_unfold [OF Suc(3) this refl] obtain K' where c: "341 * K' < 1024 * (r + 1) + 341"
      "r_range_ok d t lo hi (r + 1) K' j"
    by blast
  from Suc(2) lt have "n = r' - (r + 1)" by simp
  from Suc(1) [OF this c(2) c(1)] lt show ?case by simp
qed

lemma scaled_bounds:
  "1024 * (k * 341 div 1024) \<le> 341 * k" "341 * k < 1024 * (k * 341 div 1024 + 1)" for k :: nat
proof -
  have "1024 * (k * 341 div 1024) \<le> k * 341" by (rule times_div_less_eq_dividend)
  then show "1024 * (k * 341 div 1024) \<le> 341 * k" by (simp add: mult.commute)
  have "k * 341 < 1024 + 1024 * (k * 341 div 1024)" by (rule dividend_less_times_div) simp
  then show "341 * k < 1024 * (k * 341 div 1024 + 1)" by (simp add: mult.commute)
qed

lemma first_candidate: "341 * ((1024 * r + 340) div 341) < 1024 * r + 341" for r :: nat
proof -
  have "341 * ((1024 * r + 340) div 341) \<le> 1024 * r + 340" by (rule times_div_less_eq_dividend)
  then show ?thesis by simp
qed

lemma error_bound_int: "200 * R < 201 * A \<Longrightarrow> 199 * A < 200 * R \<Longrightarrow> 200 * \<bar>R - A\<bar> < A" for R A :: int
  by (cases "A \<le> R") (simp_all add: abs_if)

lemma cell_ok_sound:
  assumes ok: "cell_ok x lo hi" and lo: "lo \<le> a" and hi: "a < hi"
  shows "(2 * x + a div (x * (x - 1))) * 341 < 2 ^ 32
       \<and> 200 * newton x a ^ 3 < 201 * a \<and> 199 * a < 200 * newton x a ^ 3"
proof -
  let ?d = "x * (x - 1)"
  let ?k = "2 * x + a div ?d"
  let ?r0 = "newton x lo"
  from ok have x: "1 < x" and fit: "(2 * x + (hi - 1) div ?d) * 341 < 2 ^ 32"
    and rng: "r_range_ok ?d (2 * x) lo hi ?r0 ((1024 * ?r0 + 340) div 341) (newton x (hi - 1))"
    by (simp_all add: cell_ok_def Let_def)
  from hi have "a div ?d \<le> (hi - 1) div ?d" by (intro div_le_mono) simp
  then have "?k * 341 \<le> (2 * x + (hi - 1) div ?d) * 341" by simp
  from this fit have f: "?k * 341 < 2 ^ 32" by (rule le_less_trans)
  from x have dpos: "0 < ?d" by simp
  have r: "newton x a = ?k * 341 div 1024" by (simp add: newton_def)
  have k0: "341 * ((1024 * ?r0 + 340) div 341) < 1024 * ?r0 + 341" by (rule first_candidate)
  have r1: "?r0 \<le> newton x a" using lo by (rule newton_mono)
  have r2: "newton x a \<le> newton x (hi - 1)" using hi by (intro newton_mono) simp
  have k1: "1024 * newton x a \<le> 341 * ?k" unfolding r by (rule scaled_bounds)
  have k2: "341 * ?k < 1024 * (newton x a + 1)" unfolding r by (rule scaled_bounds)
  have a1: "?d * (?k - 2 * x) \<le> a" by simp
  have "a < ?d + ?d * (a div ?d)" using dpos by (rule dividend_less_times_div)
  then have a2: "a < ?d * (?k - 2 * x) + ?d" by simp
  from r_range_ok_sound [OF rng k0 r1 r2 _ k1 k2 a1 a2 lo hi] f show ?thesis by simp
qed

lemma cells_ok_sound:
  assumes "cells_ok b i j" "i \<le> s" "s \<le> j"
  shows "cell_ok (seed_of b s) (s * 2 ^ (3 * b)) ((s + 1) * 2 ^ (3 * b))"
  using assms
proof (induction "s - i" arbitrary: i)
  case 0
  then have "i = s" by simp
  with 0 show ?case by (subst (asm) cells_ok.simps) simp
next
  case (Suc n)
  then have "i \<le> j" "n = s - (i + 1)" "i + 1 \<le> s" by simp_all
  moreover with Suc(3) have "cells_ok b (i + 1) j" by (subst (asm) cells_ok.simps) simp
  ultimately show ?case using Suc(1) Suc(5) by simp
qed

lemma cube_error_okI:
  assumes big: "\<not> fls64 a < 7"
    and b: "unat (cubic_root_b a) = b"
    and cell: "cell_ok (seed_of b (unat a div 2 ^ (3 * b))) lo hi"
    and lo: "lo \<le> unat a" and hi: "unat a < hi"
  shows "cube_error_ok a"
proof -
  have x: "unat (cubic_root_seed a) = seed_of b (unat a div 2 ^ (3 * b))"
    by (simp add: unat_cubic_root_seed [OF big] unat_cubic_root_shift [OF big] b)
  note s = cell_ok_sound [OF cell lo hi, folded x]
  from s have "(2 * unat (cubic_root_seed a)
      + unat a div (unat (cubic_root_seed a) * (unat (cubic_root_seed a) - 1))) * 341 < 2 ^ 32"
    by simp
  from cubic_root_newton [OF big this] obtain w
    where w: "cubic_root a = Some w" "unat w = newton (unat (cubic_root_seed a)) (unat a)"
    by blast
  from s w(2) have e: "200 * unat w ^ 3 < 201 * unat a" "199 * unat a < 200 * unat w ^ 3"
    by simp_all
  from e(1) have "int (200 * unat w ^ 3) < int (201 * unat a)" by (simp only: of_nat_less_iff)
  then have "200 * int (unat w) ^ 3 < 201 * int (unat a)" by simp
  moreover from e(2) have "int (199 * unat a) < int (200 * unat w ^ 3)" by (simp only: of_nat_less_iff)
  then have "199 * int (unat a) < 200 * int (unat w) ^ 3" by simp
  ultimately have "200 * \<bar>int (unat w) ^ 3 - int (unat a)\<bar> < int (unat a)" by (rule error_bound_int)
  with w(1) show ?thesis by (simp add: cube_error_ok_def)
qed

lemma cube_error_ok_cells:
  assumes big: "\<not> fls64 a < 7"
    and b: "unat (cubic_root_b a) = b"
    and cells: "cells_ok b i j"
    and lo: "i \<le> unat a div 2 ^ (3 * b)" and hi: "unat a div 2 ^ (3 * b) \<le> j"
  shows "cube_error_ok a"
proof -
  let ?s = "unat a div 2 ^ (3 * b)"
  note c = cells_ok_sound [OF cells lo hi]
  have "?s * 2 ^ (3 * b) \<le> unat a" by simp
  moreover have "unat a < (?s + 1) * 2 ^ (3 * b)"
    using dividend_less_div_times [of "2 ^ (3 * b)" "unat a"] by simp
  ultimately show ?thesis by (rule cube_error_okI [OF big b c])
qed

text \<open>The cells from 1341679152 to \<open>2^40\<close>, evaluated.\<close>

lemma r_range_ok_step:
  "r \<le> j \<Longrightarrow> 1024 * (r + 1) \<le> 341 * (K + 3) \<Longrightarrow> r_range_ok d t lo hi r K j =
        (341 * (K + 3) < 1024 * (r + 1) + 341
            \<and> 200 * r ^ 3 < 201 * max lo (d * (K - t))
            \<and> 199 * min (hi - 1) (d * (K + 3 - t) - 1) < 200 * r ^ 3
            \<and> r_range_ok d t lo hi (r + 1) (K + 3) j)"
  "r \<le> j \<Longrightarrow> \<not> 1024 * (r + 1) \<le> 341 * (K + 3) \<Longrightarrow> r_range_ok d t lo hi r K j =
        (341 * (K + 4) < 1024 * (r + 1) + 341 \<and> 1024 * (r + 1) \<le> 341 * (K + 4)
            \<and> 200 * r ^ 3 < 201 * max lo (d * (K - t))
            \<and> 199 * min (hi - 1) (d * (K + 4 - t) - 1) < 200 * r ^ 3
            \<and> r_range_ok d t lo hi (r + 1) (K + 4) j)"
  "\<not> r \<le> j \<Longrightarrow> r_range_ok d t lo hi r K j = True"
  by (subst r_range_ok.simps, simp add: Let_def)+

lemma cells_ok_step:
  "i \<le> j \<Longrightarrow> cells_ok b i j =
     (cell_ok (seed_of b i) (i * 2 ^ (3 * b)) ((i + 1) * 2 ^ (3 * b)) \<and> cells_ok b (i + 1) j)"
  "\<not> i \<le> j \<Longrightarrow> cells_ok b i j = True"
  by (subst cells_ok.simps, simp)+

lemmas cells_eval = cells_ok_step cell_ok_def seed_of_def newton_def cubic_root_v_def
  r_range_ok_step Let_def

lemma cell_9_9: "cell_ok (seed_of 9 9) 1341679152 (10 * 2 ^ 27)"
  by (simp add: cells_eval)

lemma cells_9: "cells_ok 9 10 63"
  by (simp add: cells_eval)

lemma cells_10_low: "cells_ok 10 8 31"
  by (simp add: cells_eval)

lemma cells_10_high: "cells_ok 10 32 63"
  by (simp add: cells_eval)

lemma cells_11_low: "cells_ok 11 8 15"
  by (simp add: cells_eval)

lemma cells_11_mid: "cells_ok 11 16 31"
  by (simp add: cells_eval)

lemma cells_11_high: "cells_ok 11 32 63"
  by (simp add: cells_eval)

lemma cells_12_low: "cells_ok 12 8 11"
  by (simp add: cells_eval)

lemma cells_12_high: "cells_ok 12 12 15"
  by (simp add: cells_eval)

lemma cell_12_16: "cell_ok (seed_of 12 16) (2 ^ 40) (2 ^ 40 + 1)"
  by (simp add: cells_eval)

text \<open>
  C6, as stated, fails: the bound of 0.5 percent on \<open>|cube_root(v)^3 - v| / v\<close> does
  not hold on all inputs up to \<open>2^40\<close>.  \<open>cubic_root 2\<close> is 1, an error of 50 percent;
  \<open>cubic_root (2^25)\<close> is 322, whose cube 33386248 misses \<open>2^25 = 33554432\<close> by
  168184; \<open>cubic_root 150000000\<close> is 530, whose cube 148877000 misses the input by
  1123000; and \<open>cubic_root 1341679151\<close> is 1101, whose cube 1334633301 misses the input
  by 7045850.  Each error is more than 0.5 percent of the input.
\<close>

theorem cubic_root_accuracy_counterexample:
  "\<not> cube_error_ok 2 \<and> \<not> cube_error_ok 33554432
   \<and> cubic_root 150000000 = Some 530 \<and> \<not> cube_error_ok 150000000
   \<and> cubic_root 1341679151 = Some 1101 \<and> \<not> cube_error_ok 1341679151"
  by (simp add: cube_error_ok_def cubic_root_eval)

text \<open>
  C6, amended: for every input \<open>v\<close> from 1341679152 to \<open>2^40\<close>, \<open>cubic_root\<close> returns a
  value whose cube is within 0.5 percent of \<open>v\<close>: \<open>|cube_root(v)^3 - v| / v < 0.5%\<close>.
  The lower limit is the least possible one: the bound fails at 1341679151.
\<close>

theorem cubic_root_accuracy:
  assumes lower: "1341679152 \<le> unat a" and upper: "unat a \<le> 2 ^ 40"
  shows "cube_error_ok a"
proof -
  let ?n = "unat a" and ?B = "fls (unat a)"
  define b where "b = unat (cubic_root_b a)"
  define s where "s = ?n div 2 ^ (3 * b)"
  from lower have "2 ^ 30 \<le> ?n" by simp
  then have B1: "30 < ?B" by (rule fls_greater)
  from upper have "?n < 2 ^ 41" by simp
  then have B2: "?B \<le> 41" by (rule fls_le)
  from B1 have big: "\<not> fls64 a < 7" by (simp add: word_less_nat_alt unat_fls64)
  have ub: "unat (cubic_root_b a) = b" by (simp add: b_def)
  from unat_cubic_root_b(1) [OF big] have "b = ?B * 84 div 256 - 1" by (simp add: b_def)
  with B1 B2 have b: "b = 9 \<or> b = 10 \<or> b = 11 \<or> b = 12" by arith
  from cubic_root_shift_bounds [OF big] have s: "8 \<le> s" "s \<le> 63"
    by (simp_all add: s_def b_def unat_cubic_root_shift [OF big])
  have cell: "s * 2 ^ (3 * b) \<le> ?n" "?n < (s + 1) * 2 ^ (3 * b)"
    using dividend_less_div_times [of "2 ^ (3 * b)" ?n] by (simp_all add: s_def)
  from b show ?thesis
  proof (elim disjE)
    assume b9: "b = 9"
    from lower have "1341679152 div 2 ^ (3 * 9) \<le> ?n div 2 ^ (3 * 9)" by (rule div_le_mono)
    then have s9: "9 \<le> s" by (simp add: s_def b9)
    show ?thesis
    proof (cases "s = 9")
      case True
      with cell(2) b9 have hi: "?n < 10 * 2 ^ 27" by simp
      from True have "cell_ok (seed_of 9 (?n div 2 ^ (3 * 9))) 1341679152 (10 * 2 ^ 27)"
        unfolding s_def b9 by (simp only: cell_9_9)
      with big ub [unfolded b9] show ?thesis using lower hi by (rule cube_error_okI)
    next
      case False
      with s9 s(2) have "10 \<le> ?n div 2 ^ (3 * 9)" "?n div 2 ^ (3 * 9) \<le> 63"
        by (simp_all add: s_def b9)
      with big ub [unfolded b9] cells_9 show ?thesis by (rule cube_error_ok_cells)
    qed
  next
    assume b10: "b = 10"
    show ?thesis
    proof (cases "s \<le> 31")
      case True
      with s(1) have "8 \<le> ?n div 2 ^ (3 * 10)" "?n div 2 ^ (3 * 10) \<le> 31"
        by (simp_all add: s_def b10)
      with big ub [unfolded b10] cells_10_low show ?thesis by (rule cube_error_ok_cells)
    next
      case False
      with s(2) have "32 \<le> ?n div 2 ^ (3 * 10)" "?n div 2 ^ (3 * 10) \<le> 63"
        by (simp_all add: s_def b10)
      with big ub [unfolded b10] cells_10_high show ?thesis by (rule cube_error_ok_cells)
    qed
  next
    assume b11: "b = 11"
    consider "s \<le> 15" | "16 \<le> s" "s \<le> 31" | "32 \<le> s" by linarith
    then show ?thesis
    proof cases
      case 1
      with s(1) have "8 \<le> ?n div 2 ^ (3 * 11)" "?n div 2 ^ (3 * 11) \<le> 15"
        by (simp_all add: s_def b11)
      with big ub [unfolded b11] cells_11_low show ?thesis by (rule cube_error_ok_cells)
    next
      case 2
      then have "16 \<le> ?n div 2 ^ (3 * 11)" "?n div 2 ^ (3 * 11) \<le> 31"
        by (simp_all add: s_def b11)
      with big ub [unfolded b11] cells_11_mid show ?thesis by (rule cube_error_ok_cells)
    next
      case 3
      with s(2) have "32 \<le> ?n div 2 ^ (3 * 11)" "?n div 2 ^ (3 * 11) \<le> 63"
        by (simp_all add: s_def b11)
      with big ub [unfolded b11] cells_11_high show ?thesis by (rule cube_error_ok_cells)
    qed
  next
    assume b12: "b = 12"
    consider "s \<le> 11" | "12 \<le> s" "s \<le> 15" | "16 \<le> s" by linarith
    then show ?thesis
    proof cases
      case 1
      with s(1) have "8 \<le> ?n div 2 ^ (3 * 12)" "?n div 2 ^ (3 * 12) \<le> 11"
        by (simp_all add: s_def b12)
      with big ub [unfolded b12] cells_12_low show ?thesis by (rule cube_error_ok_cells)
    next
      case 2
      then have "12 \<le> ?n div 2 ^ (3 * 12)" "?n div 2 ^ (3 * 12) \<le> 15"
        by (simp_all add: s_def b12)
      with big ub [unfolded b12] cells_12_high show ?thesis by (rule cube_error_ok_cells)
    next
      case 3
      then have "16 * 2 ^ (3 * b) \<le> s * 2 ^ (3 * b)" by (intro mult_le_mono) simp_all
      from this cell(1) have "16 * 2 ^ (3 * b) \<le> ?n" by (rule le_trans)
      with upper have n: "?n = 2 ^ 40" by (simp add: b12)
      then have "?n div 2 ^ (3 * 12) = 16" by simp
      then have "cell_ok (seed_of 12 (?n div 2 ^ (3 * 12))) (2 ^ 40) (2 ^ 40 + 1)"
        by (simp only: cell_12_16)
      with big ub [unfolded b12] show ?thesis
      proof (rule cube_error_okI)
        show "2 ^ 40 \<le> ?n" "?n < 2 ^ 40 + 1" using n by simp_all
      qed
    qed
  qed
qed

theorem cubic_root_accuracy_witness:
  "1341679152 \<le> unat (1341679152 :: u64) \<and> unat (1341679152 :: u64) \<le> 2 ^ 40
   \<and> cubic_root 1341679152 = Some 1102 \<and> cube_error_ok 1341679152"
proof -
  have h: "1341679152 \<le> unat (1341679152 :: u64)" "unat (1341679152 :: u64) \<le> 2 ^ 40"
    by simp_all
  have r: "cubic_root 1341679152 = Some 1102" by (simp add: cubic_root_eval)
  from cubic_root_accuracy [OF h] h r show ?thesis by simp
qed

section \<open>The loss response\<close>

lemma unat_max: "unat (max a b) = max (unat a) (unat b)"
  by (simp add: max_def word_le_nat_alt)

lemma unat_min: "unat (min a b) = min (unat a) (unat b)"
  by (simp add: min_def word_le_nat_alt)

lemma unat_beta_scale_sum:
  assumes "unat (b :: u32) \<le> 1024"
  shows "unat (BICTCP_BETA_SCALE + b) = 1024 + unat b"
  using assms by (simp add: BICTCP_BETA_SCALE_def unat_word_ariths)

lemma fast_convergence_shrinks:
  assumes "unat (b :: u32) \<le> 1024"
  shows "unat ((w * (BICTCP_BETA_SCALE + b)) div (2 * BICTCP_BETA_SCALE)) \<le> unat w"
proof -
  let ?S = "1024 + unat b"
  have "unat (w * (BICTCP_BETA_SCALE + b)) = (unat w * unat (BICTCP_BETA_SCALE + b)) mod 2 ^ 32"
    by (simp add: unat_word_ariths(2))
  also have "\<dots> = (unat w * ?S) mod 2 ^ 32"
    by (simp only: unat_beta_scale_sum [OF assms])
  also have "\<dots> \<le> unat w * ?S" by (rule mod_less_eq_dividend)
  also have "\<dots> \<le> unat w * 2048" using assms by (intro mult_le_mono) simp_all
  finally have "unat (w * (BICTCP_BETA_SCALE + b)) div 2048 \<le> unat w" by simp
  then show ?thesis by (simp add: unat_div BICTCP_BETA_SCALE_def)
qed

lemma fast_convergence_exact:
  assumes "unat (b :: u32) \<le> 1024" and "unat w * (1024 + unat b) < 2 ^ 32"
  shows "unat ((w * (BICTCP_BETA_SCALE + b)) div (2 * BICTCP_BETA_SCALE))
         = spec_fast_convergence (unat w) (unat b)"
proof -
  have "unat (w * (BICTCP_BETA_SCALE + b)) = (unat w * unat (BICTCP_BETA_SCALE + b)) mod 2 ^ 32"
    by (simp add: unat_word_ariths(2))
  also have "\<dots> = (unat w * (1024 + unat b)) mod 2 ^ 32"
    by (simp only: unat_beta_scale_sum [OF assms(1)])
  also have "\<dots> = unat w * (1024 + unat b)" using assms(2) by simp
  finally show ?thesis
    by (simp add: unat_div BICTCP_BETA_SCALE_def spec_fast_convergence_def)
qed

lemma recalc_return_exact:
  assumes "unat w * unat (b :: u32) < 2 ^ 32"
  shows "unat (max ((w * b) div BICTCP_BETA_SCALE) 2) = spec_recalc_threshold (unat w) (unat b)"
proof -
  have "unat (w * b) = (unat w * unat b) mod 2 ^ 32" by (simp add: unat_word_ariths)
  also have "\<dots> = unat w * unat b" using assms by simp
  finally show ?thesis
    by (simp add: unat_max unat_div BICTCP_BETA_SCALE_def spec_recalc_threshold_def)
qed

text \<open>
  C2, as stated, fails: the products are 32-bit ones.  At a window of 6000000 segments
  and \<open>beta = 717\<close> the product \<open>6000000 * 717 = 4302000000\<close> exceeds \<open>2^32\<close> and
  wraps to 7032704, so the function returns \<open>7032704 / 1024 = 6867\<close>, where
  \<open>max(6000000 * 717 / 1024, 2)\<close> is 4201171.
\<close>

theorem recalc_ssthresh_counterexample:
  "snd (bictcp_recalc_ssthresh registered_defaults (sock_of 6000000 0 zero_ca)) = 6867
   \<and> spec_recalc_threshold 6000000 717 = 4201171"
  by (simp add: bictcp_recalc_ssthresh_def registered_defaults_def module_defaults_def
      sock_of_def zero_ca_def BICTCP_BETA_SCALE_def spec_recalc_threshold_def Let_def)

text \<open>
  C2, amended.  For every socket, with a decrease factor \<open>beta\<close> of at most 1024:
  \<open>bictcp_recalc_ssthresh\<close> sets \<open>epoch_start\<close> to 0 and touches nothing else but
  \<open>last_max_cwnd\<close>.  When fast convergence is on and the window is below
  \<open>last_max_cwnd\<close>, the new \<open>last_max_cwnd\<close> is strictly less than the old one;
  otherwise it becomes the window.  The returned threshold and the shrunk
  \<open>last_max_cwnd\<close> are 32-bit values: they equal \<open>max(window * beta / 1024, 2)\<close> and
  \<open>window * (1024 + beta) / (2 * 1024)\<close> as long as \<open>window * (1024 + beta) < 2^32\<close>.
\<close>

theorem recalc_ssthresh_correct:
  assumes "unat (beta p) \<le> 1024"
  shows "epoch_start (ca (fst (bictcp_recalc_ssthresh p sk))) = 0
    \<and> fst (bictcp_recalc_ssthresh p sk)
        = sk\<lparr>ca := (ca sk)\<lparr>epoch_start := 0,
             last_max_cwnd := last_max_cwnd (ca (fst (bictcp_recalc_ssthresh p sk)))\<rparr>\<rparr>
    \<and> (if fast_convergence p \<noteq> 0 \<and> snd_cwnd (tp sk) < last_max_cwnd (ca sk)
        then unat (last_max_cwnd (ca (fst (bictcp_recalc_ssthresh p sk))))
               < unat (last_max_cwnd (ca sk))
        else last_max_cwnd (ca (fst (bictcp_recalc_ssthresh p sk))) = snd_cwnd (tp sk))
    \<and> (unat (snd_cwnd (tp sk)) * (1024 + unat (beta p)) < 2 ^ 32 \<longrightarrow>
         unat (snd (bictcp_recalc_ssthresh p sk))
           = spec_recalc_threshold (unat (snd_cwnd (tp sk))) (unat (beta p))
         \<and> (fast_convergence p \<noteq> 0 \<and> snd_cwnd (tp sk) < last_max_cwnd (ca sk) \<longrightarrow>
              unat (last_max_cwnd (ca (fst (bictcp_recalc_ssthresh p sk))))
                = spec_fast_convergence (unat (snd_cwnd (tp sk))) (unat (beta p))))"
proof (intro conjI impI)
  let ?w = "snd_cwnd (tp sk)"
  show "epoch_start (ca (fst (bictcp_recalc_ssthresh p sk))) = 0"
    by (simp add: bictcp_recalc_ssthresh_def Let_def)
  show "fst (bictcp_recalc_ssthresh p sk)
        = sk\<lparr>ca := (ca sk)\<lparr>epoch_start := 0,
             last_max_cwnd := last_max_cwnd (ca (fst (bictcp_recalc_ssthresh p sk)))\<rparr>\<rparr>"
    by (simp add: bictcp_recalc_ssthresh_def Let_def)
  show "if fast_convergence p \<noteq> 0 \<and> ?w < last_max_cwnd (ca sk)
        then unat (last_max_cwnd (ca (fst (bictcp_recalc_ssthresh p sk))))
               < unat (last_max_cwnd (ca sk))
        else last_max_cwnd (ca (fst (bictcp_recalc_ssthresh p sk))) = ?w"
  proof (cases "fast_convergence p \<noteq> 0 \<and> ?w < last_max_cwnd (ca sk)")
    case True
    then have "unat ?w < unat (last_max_cwnd (ca sk))" by (simp add: word_less_nat_alt)
    with fast_convergence_shrinks [OF assms, of ?w] True show ?thesis
      by (simp add: bictcp_recalc_ssthresh_def Let_def)
  next
    case False
    then show ?thesis by (auto simp: bictcp_recalc_ssthresh_def Let_def)
  qed
next
  assume n: "unat (snd_cwnd (tp sk)) * (1024 + unat (beta p)) < 2 ^ 32"
  then have "unat (snd_cwnd (tp sk)) * unat (beta p) < 2 ^ 32"
    by (simp add: distrib_left)
  then show "unat (snd (bictcp_recalc_ssthresh p sk))
      = spec_recalc_threshold (unat (snd_cwnd (tp sk))) (unat (beta p))"
    by (simp add: bictcp_recalc_ssthresh_def Let_def recalc_return_exact)
next
  assume n: "unat (snd_cwnd (tp sk)) * (1024 + unat (beta p)) < 2 ^ 32"
    and f: "fast_convergence p \<noteq> 0 \<and> snd_cwnd (tp sk) < last_max_cwnd (ca sk)"
  from f fast_convergence_exact [OF assms n]
  show "unat (last_max_cwnd (ca (fst (bictcp_recalc_ssthresh p sk))))
      = spec_fast_convergence (unat (snd_cwnd (tp sk))) (unat (beta p))"
    by (simp add: bictcp_recalc_ssthresh_def Let_def)
qed

text \<open>
  The scenario of the specification: \<open>last_max_window = 100\<close>, a loss at a window of 60,
  fast convergence on and \<open>beta = 717\<close> give the threshold 42 and the new
  \<open>last_max_window\<close> 51.
\<close>

theorem recalc_ssthresh_correct_witness:
  "unat (beta registered_defaults) \<le> 1024
   \<and> fast_convergence registered_defaults \<noteq> 0
   \<and> unat (60 :: u32) * (1024 + unat (beta registered_defaults)) < 2 ^ 32
   \<and> snd (bictcp_recalc_ssthresh registered_defaults
            (sock_of 60 1000 (zero_ca\<lparr>last_max_cwnd := 100, epoch_start := 7\<rparr>))) = 42
   \<and> last_max_cwnd (ca (fst (bictcp_recalc_ssthresh registered_defaults
            (sock_of 60 1000 (zero_ca\<lparr>last_max_cwnd := 100, epoch_start := 7\<rparr>))))) = 51
   \<and> epoch_start (ca (fst (bictcp_recalc_ssthresh registered_defaults
            (sock_of 60 1000 (zero_ca\<lparr>last_max_cwnd := 100, epoch_start := 7\<rparr>))))) = 0
   \<and> spec_recalc_threshold 60 717 = 42 \<and> spec_fast_convergence 60 717 = 51"
proof -
  have b: "unat (beta registered_defaults) \<le> 1024"
    by (simp add: registered_defaults_def module_defaults_def)
  note t = recalc_ssthresh_correct [OF b,
      of "sock_of 60 1000 (zero_ca\<lparr>last_max_cwnd := 100, epoch_start := 7\<rparr>)"]
  have e: "snd (bictcp_recalc_ssthresh registered_defaults
            (sock_of 60 1000 (zero_ca\<lparr>last_max_cwnd := 100, epoch_start := 7\<rparr>))) = 42
     \<and> last_max_cwnd (ca (fst (bictcp_recalc_ssthresh registered_defaults
            (sock_of 60 1000 (zero_ca\<lparr>last_max_cwnd := 100, epoch_start := 7\<rparr>))))) = 51"
    by (simp add: bictcp_recalc_ssthresh_def registered_defaults_def module_defaults_def
        sock_of_def zero_ca_def BICTCP_BETA_SCALE_def Let_def)
  have s: "spec_recalc_threshold 60 717 = 42 \<and> spec_fast_convergence 60 717 = 51"
    by (simp add: spec_recalc_threshold_def spec_fast_convergence_def)
  have m: "fast_convergence registered_defaults \<noteq> 0
     \<and> unat (60 :: u32) * (1024 + unat (beta registered_defaults)) < 2 ^ 32"
    by (simp add: registered_defaults_def module_defaults_def)
  from t have "epoch_start (ca (fst (bictcp_recalc_ssthresh registered_defaults
            (sock_of 60 1000 (zero_ca\<lparr>last_max_cwnd := 100, epoch_start := 7\<rparr>))))) = 0"
    by blast
  with b e s m show ?thesis by blast
qed

section \<open>HyStart\<close>

lemma unat_drop_bit_div: "unat (drop_bit n w) = unat w div 2 ^ n"
proof -
  have "unat (drop_bit n w) = drop_bit n (unat w)" by (rule unat_drop_bit_eq)
  also have "\<dots> = unat w div 2 ^ n" by (rule drop_bit_eq_div)
  finally show ?thesis .
qed

lemma flag_in_guard:
  assumes "d AND ucast f \<noteq> (0 :: u32)"
  shows "ucast (x OR (f :: u8)) AND d \<noteq> 0"
proof
  assume z: "ucast (x OR f) AND d = 0"
  have "d AND ucast f = (ucast (x OR f) AND d) AND ucast f"
    by (rule bit_eqI) (auto simp: bit_simps)
  with z have "d AND ucast f = 0" by simp
  with assms show False by simp
qed

lemma or_train_keeps_delay_bit:
  "(x OR HYSTART_ACK_TRAIN) AND HYSTART_DELAY = x AND HYSTART_DELAY"
  unfolding HYSTART_ACK_TRAIN_def HYSTART_DELAY_def
  by (rule bit_eqI) (auto simp: bit_simps)

lemma or_delay_sets_bit: "(x OR HYSTART_DELAY) AND HYSTART_DELAY \<noteq> 0"
  unfolding HYSTART_DELAY_def by simp

text \<open>What the ACK-train block leaves alone.\<close>

lemma hystart_ack_train_keeps:
  "curr_rtt (ca (hystart_ack_train p sk clock)) = curr_rtt (ca sk)"
  "sample_cnt (ca (hystart_ack_train p sk clock)) = sample_cnt (ca sk)"
  "delay_min (ca (hystart_ack_train p sk clock)) = delay_min (ca sk)"
  "snd_cwnd (tp (hystart_ack_train p sk clock)) = snd_cwnd (tp sk)"
  "found (ca (hystart_ack_train p sk clock)) AND HYSTART_DELAY = found (ca sk) AND HYSTART_DELAY"
  by (simp_all add: hystart_ack_train_def Let_def or_train_keeps_delay_bit)

lemma hystart_ack_train_off:
  "hystart_detect p AND ucast HYSTART_ACK_TRAIN = 0 \<Longrightarrow> hystart_ack_train p sk clock = sk"
  by (simp add: hystart_ack_train_def)

text \<open>The delay block, one sample at a time.\<close>

lemma hystart_delay_collect:
  assumes "hystart_detect p AND ucast HYSTART_DELAY \<noteq> 0" and "sample_cnt (ca sk) < 8"
  shows "hystart_delay p sk delay =
           sk\<lparr>ca := (ca sk)\<lparr>curr_rtt := round_min (curr_rtt (ca sk)) delay,
                             sample_cnt := sample_cnt (ca sk) + 1\<rparr>\<rparr>"
proof (cases "delay < curr_rtt (ca sk)")
  case True
  then have "curr_rtt (ca sk) \<noteq> 0" by auto
  with True assms show ?thesis
    by (simp add: hystart_delay_def HYSTART_MIN_SAMPLES_def round_min_def Let_def min_def)
next
  case False
  then have "curr_rtt (ca sk) \<le> delay" by simp
  with False assms show ?thesis
    by (simp add: hystart_delay_def HYSTART_MIN_SAMPLES_def round_min_def Let_def min_def)
qed

lemma hystart_delay_evaluate:
  assumes "hystart_detect p AND ucast HYSTART_DELAY \<noteq> 0" and "8 \<le> sample_cnt (ca sk)"
  shows "hystart_delay p sk delay =
     (if delay_min (ca sk) + HYSTART_DELAY_THRESH p (drop_bit 3 (delay_min (ca sk)))
           < min (curr_rtt (ca sk)) delay
      then sk\<lparr>ca := (ca sk)\<lparr>curr_rtt := min (curr_rtt (ca sk)) delay,
                             found := found (ca sk) OR HYSTART_DELAY\<rparr>,
              tp := (tp sk)\<lparr>snd_ssthresh := snd_cwnd (tp sk)\<rparr>\<rparr>
      else sk\<lparr>ca := (ca sk)\<lparr>curr_rtt := min (curr_rtt (ca sk)) delay\<rparr>\<rparr>)"
proof (cases "delay < curr_rtt (ca sk)")
  case True
  with assms show ?thesis
    by (simp add: hystart_delay_def HYSTART_MIN_SAMPLES_def Let_def min_def)
next
  case False
  then have "curr_rtt (ca sk) \<le> delay" by simp
  with False assms show ?thesis
    by (simp add: hystart_delay_def HYSTART_MIN_SAMPLES_def Let_def min_def)
qed

lemma unat_delay_thresh:
  "unat (HYSTART_DELAY_THRESH p (drop_bit 3 m))
     = spec_delay_thresh (hystart_delay_max p \<noteq> 0) (unat m)"
proof -
  have d: "unat (drop_bit 3 m) = unat m div 8"
    using unat_drop_bit_div [of 3 m] by simp
  have "unat m < 2 ^ 32" using unsigned_less [of m] by simp
  then have s: "unat m div 8 < 2147483647" by simp
  show ?thesis
    using s
    by (simp add: HYSTART_DELAY_THRESH_def clamp_def HYSTART_DELAY_MIN_def
        HYSTART_DELAY_MAX_def INT_MAX_def unat_min unat_max d spec_delay_thresh_def)
qed

lemma hystart_update_collect:
  assumes "hystart_detect p = 2" and "ucast (found (ca sk)) AND hystart_detect p = 0"
    and "sample_cnt (ca sk) < 8"
  shows "hystart_update p sk delay clock =
           sk\<lparr>ca := (ca sk)\<lparr>curr_rtt := round_min (curr_rtt (ca sk)) delay,
                             sample_cnt := sample_cnt (ca sk) + 1\<rparr>\<rparr>"
proof -
  from assms(1) have off: "hystart_detect p AND ucast HYSTART_ACK_TRAIN = 0"
    and on: "hystart_detect p AND ucast HYSTART_DELAY \<noteq> 0"
    by (simp_all add: HYSTART_ACK_TRAIN_def HYSTART_DELAY_def)
  from assms(2) have "hystart_update p sk delay clock = hystart_delay p sk delay"
    by (simp add: hystart_update_def hystart_ack_train_off [OF off])
  with hystart_delay_collect [OF on assms(3)] show ?thesis by simp
qed

lemma hystart_samples_collect:
  assumes "hystart_detect p = 2" and "ucast (found (ca sk)) AND hystart_detect p = 0"
    and "unat (sample_cnt (ca sk)) + length ds \<le> 8"
  shows "hystart_samples p sk ds =
           sk\<lparr>ca := (ca sk)\<lparr>curr_rtt := foldl round_min (curr_rtt (ca sk)) (map fst ds),
                             sample_cnt := sample_cnt (ca sk) + of_nat (length ds)\<rparr>\<rparr>"
  using assms(2,3)
proof (induction ds arbitrary: sk)
  case Nil
  then show ?case by simp
next
  case (Cons x ds)
  obtain delay clock where x: "x = (delay, clock)" by (cases x)
  let ?sk = "sk\<lparr>ca := (ca sk)\<lparr>curr_rtt := round_min (curr_rtt (ca sk)) delay,
                             sample_cnt := sample_cnt (ca sk) + 1\<rparr>\<rparr>"
  from Cons.prems(2) have n: "unat (sample_cnt (ca sk)) < 8" by simp
  then have lt: "sample_cnt (ca sk) < 8" by (simp add: word_less_nat_alt)
  have step: "hystart_update p sk delay clock = ?sk"
    by (rule hystart_update_collect [OF assms(1) Cons.prems(1) lt])
  have cnt: "unat (sample_cnt (ca sk) + 1) = unat (sample_cnt (ca sk)) + 1"
    using n by (simp add: unat_word_ariths)
  have g: "ucast (found (ca ?sk)) AND hystart_detect p = 0" using Cons.prems(1) by simp
  have m: "unat (sample_cnt (ca ?sk)) + length ds \<le> 8" using Cons.prems(2) cnt by simp
  from Cons.IH [OF g m] show ?case by (simp add: x step add.assoc)
qed

lemma foldl_round_min:
  "c \<noteq> 0 \<Longrightarrow> 0 \<notin> set ds \<Longrightarrow> foldl round_min c ds = Min (insert c (set ds))"
proof (induction ds arbitrary: c)
  case Nil
  then show ?case by simp
next
  case (Cons d ds)
  from Cons.prems have nz: "min c d \<noteq> 0" "0 \<notin> set ds" by (auto simp: min_def)
  have "foldl round_min c (d # ds) = foldl round_min (min c d) ds"
    using Cons.prems by (simp add: round_min_def)
  also have "\<dots> = Min (insert (min c d) (set ds))" by (rule Cons.IH [OF nz])
  also have "\<dots> = Min (insert c (set (d # ds)))"
    by (cases "set ds = {}") (simp_all add: min.assoc)
  finally show ?case .
qed

lemma foldl_round_min_unset:
  assumes "ds \<noteq> []" and "0 \<notin> set ds"
  shows "foldl round_min 0 ds = Min (set ds)"
proof -
  from assms(1) obtain d ds' where ds: "ds = d # ds'" by (cases ds) auto
  with assms(2) have "d \<noteq> 0" "0 \<notin> set ds'" by auto
  then have "foldl round_min d ds' = Min (insert d (set ds'))" by (rule foldl_round_min)
  then show ?thesis by (simp add: ds round_min_def)
qed

lemma hystart_update_evaluate:
  assumes "hystart_detect p AND ucast HYSTART_DELAY \<noteq> 0"
    and "ucast (found (ca sk)) AND hystart_detect p = 0"
    and "8 \<le> sample_cnt (ca sk)"
  shows "curr_rtt (ca (hystart_update p sk delay clock)) = min (curr_rtt (ca sk)) delay"
    and "sample_cnt (ca (hystart_update p sk delay clock)) = sample_cnt (ca sk)"
    and "delay_min (ca sk) + HYSTART_DELAY_THRESH p (drop_bit 3 (delay_min (ca sk)))
           < min (curr_rtt (ca sk)) delay
         \<Longrightarrow> found (ca (hystart_update p sk delay clock)) AND HYSTART_DELAY \<noteq> 0
             \<and> snd_ssthresh (tp (hystart_update p sk delay clock)) = snd_cwnd (tp sk)"
    and "\<not> delay_min (ca sk) + HYSTART_DELAY_THRESH p (drop_bit 3 (delay_min (ca sk)))
           < min (curr_rtt (ca sk)) delay
         \<Longrightarrow> found (ca (hystart_update p sk delay clock)) AND HYSTART_DELAY
               = found (ca sk) AND HYSTART_DELAY"
proof -
  let ?t = "hystart_ack_train p sk clock"
  have u: "hystart_update p sk delay clock = hystart_delay p ?t delay"
    using assms(2) by (simp add: hystart_update_def)
  have c: "8 \<le> sample_cnt (ca ?t)" using assms(3) by (simp add: hystart_ack_train_keeps)
  note e = hystart_delay_evaluate [OF assms(1) c, of delay]
  show "curr_rtt (ca (hystart_update p sk delay clock)) = min (curr_rtt (ca sk)) delay"
    by (simp add: u e hystart_ack_train_keeps)
  show "sample_cnt (ca (hystart_update p sk delay clock)) = sample_cnt (ca sk)"
    by (simp add: u e hystart_ack_train_keeps)
  show "found (ca (hystart_update p sk delay clock)) AND HYSTART_DELAY \<noteq> 0
      \<and> snd_ssthresh (tp (hystart_update p sk delay clock)) = snd_cwnd (tp sk)"
    if "delay_min (ca sk) + HYSTART_DELAY_THRESH p (drop_bit 3 (delay_min (ca sk)))
           < min (curr_rtt (ca sk)) delay"
    using that by (simp add: u e hystart_ack_train_keeps HYSTART_DELAY_def del: min_less_iff_conj)
  show "found (ca (hystart_update p sk delay clock)) AND HYSTART_DELAY
               = found (ca sk) AND HYSTART_DELAY"
    if "\<not> delay_min (ca sk) + HYSTART_DELAY_THRESH p (drop_bit 3 (delay_min (ca sk)))
           < min (curr_rtt (ca sk)) delay"
    using that by (simp add: u e hystart_ack_train_keeps del: min_less_iff_conj)
qed

lemmas hystart_eval = hystart_update_def hystart_ack_train_def hystart_delay_def
  HYSTART_DELAY_THRESH_def HYSTART_DELAY_MAX_def HYSTART_DELAY_MIN_def clamp_def
  HYSTART_MIN_SAMPLES_def HYSTART_ACK_TRAIN_def HYSTART_DELAY_def INT_MAX_def
  registered_defaults_def module_defaults_def delay_only_def sock_of_def zero_ca_def Let_def

lemma delay_scenario_after_8:
  "hystart_samples registered_defaults delay_scenario_sock delay_scenario_samples
     = sock_of 50 1000 (zero_ca\<lparr>delay_min := 400, curr_rtt := 560, sample_cnt := 8\<rparr>)"
  by (simp add: delay_scenario_sock_def delay_scenario_samples_def hystart_eval)

lemma hystart_samples_append:
  "hystart_samples p sk (xs @ ys) = hystart_samples p (hystart_samples p sk xs) ys"
  by (induction xs arbitrary: sk) auto

text \<open>The first eight samples under any configuration that selects the delay detector.\<close>

lemma hystart_update_frozen:
  "ucast (found (ca sk)) AND hystart_detect p \<noteq> 0 \<Longrightarrow> hystart_samples p sk ds = sk"
  by (induction ds arbitrary: sk) (auto simp: hystart_update_def)

lemma hystart_ack_train_quiet:
  assumes "ucast (found (ca (hystart_ack_train p sk clock))) AND hystart_detect p = 0"
  shows "found (ca (hystart_ack_train p sk clock)) = found (ca sk)"
    and "tp (hystart_ack_train p sk clock) = tp sk"
proof -
  let ?c1 = "(ca sk)\<lparr>last_ack := clock\<rparr>"
  let ?fire = "hystart_detect p AND ucast HYSTART_ACK_TRAIN \<noteq> 0
      \<and> sint (clock - last_ack (ca sk)) \<le> sint (hystart_ack_delta p)
      \<and> drop_bit 4 (delay_min ?c1) < clock - round_start ?c1"
  have quiet: "\<not> ?fire"
  proof
    assume f: ?fire
    then have "found (ca (hystart_ack_train p sk clock)) = found (ca sk) OR HYSTART_ACK_TRAIN"
      by (simp add: hystart_ack_train_def Let_def)
    moreover from f have "ucast (found (ca sk) OR HYSTART_ACK_TRAIN) AND hystart_detect p \<noteq> 0"
      by (intro flag_in_guard) simp
    ultimately show False using assms by simp
  qed
  from quiet show "found (ca (hystart_ack_train p sk clock)) = found (ca sk)"
    by (auto simp: hystart_ack_train_def Let_def)
  from quiet show "tp (hystart_ack_train p sk clock) = tp sk"
    by (auto simp: hystart_ack_train_def Let_def)
qed

lemma hystart_update_collect_any:
  assumes on: "hystart_detect p AND ucast HYSTART_DELAY \<noteq> 0"
    and guard: "ucast (found (ca sk)) AND hystart_detect p = 0"
    and few: "sample_cnt (ca sk) < 8"
  shows "curr_rtt (ca (hystart_update p sk delay clock)) = round_min (curr_rtt (ca sk)) delay"
    and "sample_cnt (ca (hystart_update p sk delay clock)) = sample_cnt (ca sk) + 1"
    and "delay_min (ca (hystart_update p sk delay clock)) = delay_min (ca sk)"
    and "found (ca (hystart_update p sk delay clock)) AND HYSTART_DELAY
           = found (ca sk) AND HYSTART_DELAY"
    and "snd_cwnd (tp (hystart_update p sk delay clock)) = snd_cwnd (tp sk)"
    and "ucast (found (ca (hystart_update p sk delay clock))) AND hystart_detect p = 0
         \<Longrightarrow> found (ca (hystart_update p sk delay clock)) = found (ca sk)
             \<and> tp (hystart_update p sk delay clock) = tp sk"
proof -
  let ?t = "hystart_ack_train p sk clock"
  have u: "hystart_update p sk delay clock = hystart_delay p ?t delay"
    using guard by (simp add: hystart_update_def)
  have c: "sample_cnt (ca ?t) < 8" using few by (simp add: hystart_ack_train_keeps)
  note e = hystart_delay_collect [OF on c, of delay]
  show "curr_rtt (ca (hystart_update p sk delay clock)) = round_min (curr_rtt (ca sk)) delay"
    by (simp add: u e hystart_ack_train_keeps)
  show "sample_cnt (ca (hystart_update p sk delay clock)) = sample_cnt (ca sk) + 1"
    by (simp add: u e hystart_ack_train_keeps)
  show "delay_min (ca (hystart_update p sk delay clock)) = delay_min (ca sk)"
    by (simp add: u e hystart_ack_train_keeps)
  show "found (ca (hystart_update p sk delay clock)) AND HYSTART_DELAY
           = found (ca sk) AND HYSTART_DELAY"
    by (simp add: u e hystart_ack_train_keeps)
  show "snd_cwnd (tp (hystart_update p sk delay clock)) = snd_cwnd (tp sk)"
    by (simp add: u e hystart_ack_train_keeps)
  show "found (ca (hystart_update p sk delay clock)) = found (ca sk)
             \<and> tp (hystart_update p sk delay clock) = tp sk"
    if "ucast (found (ca (hystart_update p sk delay clock))) AND hystart_detect p = 0"
  proof -
    from that have "ucast (found (ca ?t)) AND hystart_detect p = 0" by (simp add: u e)
    from hystart_ack_train_quiet [OF this] show ?thesis by (simp add: u e)
  qed
qed

lemma hystart_samples_collect_any:
  assumes on: "hystart_detect p AND ucast HYSTART_DELAY \<noteq> 0"
    and quiet: "ucast (found (ca (hystart_samples p sk ds))) AND hystart_detect p = 0"
    and few: "unat (sample_cnt (ca sk)) + length ds \<le> 8"
  shows "curr_rtt (ca (hystart_samples p sk ds))
           = foldl round_min (curr_rtt (ca sk)) (map fst ds)
       \<and> sample_cnt (ca (hystart_samples p sk ds)) = sample_cnt (ca sk) + of_nat (length ds)
       \<and> found (ca (hystart_samples p sk ds)) = found (ca sk)
       \<and> tp (hystart_samples p sk ds) = tp sk"
  using quiet few
proof (induction ds arbitrary: sk)
  case Nil
  then show ?case by simp
next
  case (Cons x ds)
  obtain delay clock where x: "x = (delay, clock)" by (cases x)
  let ?sk = "hystart_update p sk delay clock"
  have fin: "hystart_samples p sk (x # ds) = hystart_samples p ?sk ds" by (simp add: x)
  have g0: "ucast (found (ca sk)) AND hystart_detect p = 0"
  proof (rule ccontr)
    assume "ucast (found (ca sk)) AND hystart_detect p \<noteq> 0"
    then have "hystart_samples p sk (x # ds) = sk" by (rule hystart_update_frozen)
    with Cons.prems(1) \<open>ucast (found (ca sk)) AND hystart_detect p \<noteq> 0\<close> show False by simp
  qed
  have g1: "ucast (found (ca ?sk)) AND hystart_detect p = 0"
  proof (rule ccontr)
    assume "ucast (found (ca ?sk)) AND hystart_detect p \<noteq> 0"
    then have "hystart_samples p ?sk ds = ?sk" by (rule hystart_update_frozen)
    with Cons.prems(1) \<open>ucast (found (ca ?sk)) AND hystart_detect p \<noteq> 0\<close> show False
      by (simp add: fin)
  qed
  from Cons.prems(2) have n: "unat (sample_cnt (ca sk)) < 8" by simp
  then have lt: "sample_cnt (ca sk) < 8" by (simp add: word_less_nat_alt)
  note step = hystart_update_collect_any [OF on g0 lt, of delay clock]
  have cnt: "unat (sample_cnt (ca sk) + 1) = unat (sample_cnt (ca sk)) + 1"
    using n by (simp add: unat_word_ariths)
  have q: "ucast (found (ca (hystart_samples p ?sk ds))) AND hystart_detect p = 0"
    using Cons.prems(1) by (simp add: fin)
  have m: "unat (sample_cnt (ca ?sk)) + length ds \<le> 8"
    using Cons.prems(2) cnt by (simp add: step(2))
  from Cons.IH [OF q m] step(6) [OF g1] show ?case
    by (simp add: x step(1,2) add.assoc)
qed

text \<open>
  C4, as stated, fails: the round minimum is not that of the first 8 samples only.
  After eight samples of 560 with \<open>delay_min = 400\<close> the minimum of the first eight is
  560, above the threshold \<open>400 + 50\<close>; a ninth sample of 440 lowers \<open>curr_rtt\<close> to 440
  before the comparison, the detector does not fire and the threshold stays at 1000.
\<close>

theorem hystart_delay_counterexample:
  "curr_rtt (ca (hystart_samples registered_defaults delay_scenario_sock
       delay_scenario_samples)) = 560
   \<and> sample_cnt (ca (hystart_samples registered_defaults delay_scenario_sock
       delay_scenario_samples)) = 8
   \<and> 400 + spec_delay_thresh True 400 < (560 :: nat)
   \<and> curr_rtt (ca (hystart_samples registered_defaults delay_scenario_sock
       (delay_scenario_samples @ [(440, 900)]))) = 440
   \<and> found (ca (hystart_samples registered_defaults delay_scenario_sock
       (delay_scenario_samples @ [(440, 900)]))) = 0
   \<and> snd_ssthresh (tp (hystart_samples registered_defaults delay_scenario_sock
       (delay_scenario_samples @ [(440, 900)]))) = 1000"
proof -
  have "hystart_samples registered_defaults delay_scenario_sock
          (delay_scenario_samples @ [(440, 900)])
        = sock_of 50 1000 (zero_ca\<lparr>delay_min := 400, curr_rtt := 440, sample_cnt := 8\<rparr>)"
    unfolding hystart_samples_append delay_scenario_after_8
    by (simp add: hystart_eval)
  then show ?thesis
    unfolding delay_scenario_after_8
    by (simp add: spec_delay_thresh_def sock_of_def zero_ca_def)
qed

text \<open>
  C4, amended.  In the delay detector of \<open>hystart_update\<close>, \<open>curr_rtt\<close> holds the minimum
  of all RTT samples of the round so far, 0 meaning none.  The statement is for every
  setting of \<open>hystart_detect\<close> that selects the delay detector, the default 3 among them,
  and has five parts.

  \<^enum> While fewer than eight samples are counted and no selected detector has fired, a
    sample lowers \<open>curr_rtt\<close> to the minimum of itself and the samples before and counts
    itself in \<open>sample_cnt\<close>; \<open>delay_min\<close>, the DELAY flag and the window are as before.
  \<^enum> Up to eight nonzero samples given to a fresh round, after which no selected
    detector has fired, leave their minimum in \<open>curr_rtt\<close> and their number in
    \<open>sample_cnt\<close>, and change neither the flags nor the threshold.
  \<^enum> With the delay detector alone selected, no detector fires during these samples.
  \<^enum> Once eight samples are counted, each further sample first lowers \<open>curr_rtt\<close> to
    the minimum of itself and the samples before, and the detector fires (the DELAY
    flag is set and the slow-start threshold becomes the window) when that minimum
    exceeds \<open>delay_min + HYSTART_DELAY_THRESH(delay_min >> 3)\<close>, a 32-bit sum; otherwise
    the DELAY flag is as before.
  \<^enum> The threshold is \<open>clamp(delay_min / 8, 32, 128)\<close>, without the upper bound when
    the clamp is off.
\<close>

theorem hystart_delay_detector:
  "(hystart_detect p AND ucast HYSTART_DELAY \<noteq> 0
      \<and> ucast (found (ca sk)) AND hystart_detect p = 0 \<and> sample_cnt (ca sk) < 8
     \<longrightarrow> curr_rtt (ca (hystart_update p sk delay clock)) = round_min (curr_rtt (ca sk)) delay
       \<and> sample_cnt (ca (hystart_update p sk delay clock)) = sample_cnt (ca sk) + 1
       \<and> delay_min (ca (hystart_update p sk delay clock)) = delay_min (ca sk)
       \<and> found (ca (hystart_update p sk delay clock)) AND HYSTART_DELAY
           = found (ca sk) AND HYSTART_DELAY
       \<and> snd_cwnd (tp (hystart_update p sk delay clock)) = snd_cwnd (tp sk))
   \<and> (hystart_detect p AND ucast HYSTART_DELAY \<noteq> 0
      \<and> ucast (found (ca (hystart_samples p sk ds))) AND hystart_detect p = 0
      \<and> curr_rtt (ca sk) = 0 \<and> sample_cnt (ca sk) = 0
      \<and> ds \<noteq> [] \<and> length ds \<le> 8 \<and> 0 \<notin> set (map fst ds)
     \<longrightarrow> curr_rtt (ca (hystart_samples p sk ds)) = Min (set (map fst ds))
       \<and> sample_cnt (ca (hystart_samples p sk ds)) = of_nat (length ds)
       \<and> found (ca (hystart_samples p sk ds)) = found (ca sk)
       \<and> tp (hystart_samples p sk ds) = tp sk)
   \<and> (hystart_detect p = 2 \<and> ucast (found (ca sk)) AND hystart_detect p = 0
      \<and> curr_rtt (ca sk) = 0 \<and> sample_cnt (ca sk) = 0
      \<and> ds \<noteq> [] \<and> length ds \<le> 8 \<and> 0 \<notin> set (map fst ds)
     \<longrightarrow> curr_rtt (ca (hystart_samples p sk ds)) = Min (set (map fst ds))
       \<and> sample_cnt (ca (hystart_samples p sk ds)) = of_nat (length ds)
       \<and> found (ca (hystart_samples p sk ds)) = found (ca sk)
       \<and> tp (hystart_samples p sk ds) = tp sk)
   \<and> (hystart_detect p AND ucast HYSTART_DELAY \<noteq> 0
      \<and> ucast (found (ca sk)) AND hystart_detect p = 0 \<and> 8 \<le> sample_cnt (ca sk)
     \<longrightarrow> curr_rtt (ca (hystart_update p sk delay clock)) = min (curr_rtt (ca sk)) delay
       \<and> sample_cnt (ca (hystart_update p sk delay clock)) = sample_cnt (ca sk)
       \<and> (if delay_min (ca sk) + HYSTART_DELAY_THRESH p (drop_bit 3 (delay_min (ca sk)))
                < min (curr_rtt (ca sk)) delay
           then found (ca (hystart_update p sk delay clock)) AND HYSTART_DELAY \<noteq> 0
              \<and> snd_ssthresh (tp (hystart_update p sk delay clock)) = snd_cwnd (tp sk)
           else found (ca (hystart_update p sk delay clock)) AND HYSTART_DELAY
                  = found (ca sk) AND HYSTART_DELAY))
   \<and> unat (HYSTART_DELAY_THRESH p (drop_bit 3 m))
       = spec_delay_thresh (hystart_delay_max p \<noteq> 0) (unat m)"
proof (intro conjI impI)
  assume a: "hystart_detect p AND ucast HYSTART_DELAY \<noteq> 0
      \<and> ucast (found (ca sk)) AND hystart_detect p = 0 \<and> sample_cnt (ca sk) < 8"
  then have a1: "hystart_detect p AND ucast HYSTART_DELAY \<noteq> 0"
    and a2: "ucast (found (ca sk)) AND hystart_detect p = 0"
    and a3: "sample_cnt (ca sk) < 8" by simp_all
  note e = hystart_update_collect_any [OF a1 a2 a3, of delay clock]
  show "curr_rtt (ca (hystart_update p sk delay clock)) = round_min (curr_rtt (ca sk)) delay"
    by (rule e(1))
  show "sample_cnt (ca (hystart_update p sk delay clock)) = sample_cnt (ca sk) + 1"
    by (rule e(2))
  show "delay_min (ca (hystart_update p sk delay clock)) = delay_min (ca sk)"
    by (rule e(3))
  show "found (ca (hystart_update p sk delay clock)) AND HYSTART_DELAY
           = found (ca sk) AND HYSTART_DELAY"
    by (rule e(4))
  show "snd_cwnd (tp (hystart_update p sk delay clock)) = snd_cwnd (tp sk)"
    by (rule e(5))
next
  assume a: "hystart_detect p AND ucast HYSTART_DELAY \<noteq> 0
      \<and> ucast (found (ca (hystart_samples p sk ds))) AND hystart_detect p = 0
      \<and> curr_rtt (ca sk) = 0 \<and> sample_cnt (ca sk) = 0
      \<and> ds \<noteq> [] \<and> length ds \<le> 8 \<and> 0 \<notin> set (map fst ds)"
  then have n: "unat (sample_cnt (ca sk)) + length ds \<le> 8" by simp
  from a have a1: "hystart_detect p AND ucast HYSTART_DELAY \<noteq> 0"
    and a2: "ucast (found (ca (hystart_samples p sk ds))) AND hystart_detect p = 0" by blast+
  note c = hystart_samples_collect_any [OF a1 a2 n]
  from a have "foldl round_min 0 (map fst ds) = Min (set (map fst ds))"
    by (intro foldl_round_min_unset) simp_all
  with a c show "curr_rtt (ca (hystart_samples p sk ds)) = Min (set (map fst ds))" by simp
  from a c show "sample_cnt (ca (hystart_samples p sk ds)) = of_nat (length ds)" by simp
  from c show "found (ca (hystart_samples p sk ds)) = found (ca sk)" by simp
  from c show "tp (hystart_samples p sk ds) = tp sk" by simp
next
  assume a: "hystart_detect p = 2 \<and> ucast (found (ca sk)) AND hystart_detect p = 0
      \<and> curr_rtt (ca sk) = 0 \<and> sample_cnt (ca sk) = 0
      \<and> ds \<noteq> [] \<and> length ds \<le> 8 \<and> 0 \<notin> set (map fst ds)"
  then have n: "unat (sample_cnt (ca sk)) + length ds \<le> 8" by simp
  from a have a1: "hystart_detect p = 2"
    and a2: "ucast (found (ca sk)) AND hystart_detect p = 0" by blast+
  have c: "hystart_samples p sk ds =
      sk\<lparr>ca := (ca sk)\<lparr>curr_rtt := foldl round_min (curr_rtt (ca sk)) (map fst ds),
                        sample_cnt := sample_cnt (ca sk) + of_nat (length ds)\<rparr>\<rparr>"
    by (rule hystart_samples_collect [OF a1 a2 n])
  from a have "foldl round_min 0 (map fst ds) = Min (set (map fst ds))"
    by (intro foldl_round_min_unset) simp_all
  with a c show "curr_rtt (ca (hystart_samples p sk ds)) = Min (set (map fst ds))" by simp
  from a c show "sample_cnt (ca (hystart_samples p sk ds)) = of_nat (length ds)" by simp
  from c show "found (ca (hystart_samples p sk ds)) = found (ca sk)" by simp
  from c show "tp (hystart_samples p sk ds) = tp sk" by simp
next
  assume a: "hystart_detect p AND ucast HYSTART_DELAY \<noteq> 0
      \<and> ucast (found (ca sk)) AND hystart_detect p = 0 \<and> 8 \<le> sample_cnt (ca sk)"
  then have a1: "hystart_detect p AND ucast HYSTART_DELAY \<noteq> 0"
    and a2: "ucast (found (ca sk)) AND hystart_detect p = 0"
    and a3: "8 \<le> sample_cnt (ca sk)" by simp_all
  note e = hystart_update_evaluate [OF a1 a2 a3, of delay clock]
  show "curr_rtt (ca (hystart_update p sk delay clock)) = min (curr_rtt (ca sk)) delay"
    by (rule e(1))
  show "sample_cnt (ca (hystart_update p sk delay clock)) = sample_cnt (ca sk)"
    by (rule e(2))
  show "if delay_min (ca sk) + HYSTART_DELAY_THRESH p (drop_bit 3 (delay_min (ca sk)))
                < min (curr_rtt (ca sk)) delay
        then found (ca (hystart_update p sk delay clock)) AND HYSTART_DELAY \<noteq> 0
           \<and> snd_ssthresh (tp (hystart_update p sk delay clock)) = snd_cwnd (tp sk)
        else found (ca (hystart_update p sk delay clock)) AND HYSTART_DELAY
               = found (ca sk) AND HYSTART_DELAY"
  proof (cases "delay_min (ca sk) + HYSTART_DELAY_THRESH p (drop_bit 3 (delay_min (ca sk)))
                < min (curr_rtt (ca sk)) delay")
    case True
    from e(3) [OF True] True show ?thesis by (simp del: min_less_iff_conj)
  next
    case False
    from e(4) [OF False] False show ?thesis by (simp del: min_less_iff_conj)
  qed
next
  show "unat (HYSTART_DELAY_THRESH p (drop_bit 3 m))
       = spec_delay_thresh (hystart_delay_max p \<noteq> 0) (unat m)"
    by (rule unat_delay_thresh)
qed

text \<open>
  The scenario of the specification under the default configuration, in which both
  detectors are selected (\<open>hystart_detect = 3\<close>): \<open>min_delay = 400\<close>, eight samples of
  560 and the clamp on.  The first sample sets \<open>curr_rtt\<close> to 560 and \<open>sample_cnt\<close> to
  1.  The threshold is \<open>clamp(50, 32, 128) = 50\<close>; the round minimum is 560 after the
  eight samples, no detector has fired, and a ninth sample of 560 makes the delay
  detector fire: the DELAY flag is set and the threshold becomes the window, 50.  The
  eight samples give the same with the delay detector alone selected.
\<close>

theorem hystart_delay_detector_witness:
  "hystart_detect registered_defaults = 3
   \<and> curr_rtt (ca delay_scenario_sock) = 0 \<and> sample_cnt (ca delay_scenario_sock) = 0
   \<and> length delay_scenario_samples = 8 \<and> 0 \<notin> set (map fst delay_scenario_samples)
   \<and> curr_rtt (ca (hystart_update registered_defaults delay_scenario_sock 560 100)) = 560
   \<and> sample_cnt (ca (hystart_update registered_defaults delay_scenario_sock 560 100)) = 1
   \<and> curr_rtt (ca (hystart_samples registered_defaults delay_scenario_sock
        delay_scenario_samples)) = 560
   \<and> sample_cnt (ca (hystart_samples registered_defaults delay_scenario_sock
        delay_scenario_samples)) = 8
   \<and> found (ca (hystart_samples registered_defaults delay_scenario_sock
        delay_scenario_samples)) = 0
   \<and> snd_ssthresh (tp (hystart_samples registered_defaults delay_scenario_sock
        delay_scenario_samples)) = 1000
   \<and> unat (HYSTART_DELAY_THRESH registered_defaults (drop_bit 3 400)) = 50
   \<and> found (ca (hystart_update registered_defaults
        (hystart_samples registered_defaults delay_scenario_sock
           delay_scenario_samples) 560 900)) AND HYSTART_DELAY \<noteq> 0
   \<and> snd_ssthresh (tp (hystart_update registered_defaults
        (hystart_samples registered_defaults delay_scenario_sock
           delay_scenario_samples) 560 900)) = 50
   \<and> hystart_detect (delay_only registered_defaults) = 2
   \<and> curr_rtt (ca (hystart_samples (delay_only registered_defaults) delay_scenario_sock
        delay_scenario_samples)) = 560
   \<and> sample_cnt (ca (hystart_samples (delay_only registered_defaults) delay_scenario_sock
        delay_scenario_samples)) = 8"
proof -
  let ?p = "registered_defaults"
  let ?q = "delay_only registered_defaults"
  let ?s8 = "hystart_samples ?p delay_scenario_sock delay_scenario_samples"
  let ?t8 = "hystart_samples ?q delay_scenario_sock delay_scenario_samples"
  have d: "hystart_detect ?p = 3" by (simp add: registered_defaults_def module_defaults_def)
  have m: "Min (set (map fst delay_scenario_samples)) = 560"
    by (simp add: delay_scenario_samples_def)
  have l: "length delay_scenario_samples = 8" by (simp add: delay_scenario_samples_def)
  have z: "0 \<notin> set (map fst delay_scenario_samples)" by (simp add: delay_scenario_samples_def)
  have i: "curr_rtt (ca delay_scenario_sock) = 0" "sample_cnt (ca delay_scenario_sock) = 0"
      "found (ca delay_scenario_sock) = 0" "snd_ssthresh (tp delay_scenario_sock) = 1000"
      "snd_cwnd (tp delay_scenario_sock) = 50"
    by (simp_all add: delay_scenario_sock_def sock_of_def zero_ca_def)
  have h1: "hystart_detect ?p AND ucast HYSTART_DELAY \<noteq> 0
      \<and> ucast (found (ca delay_scenario_sock)) AND hystart_detect ?p = 0
      \<and> sample_cnt (ca delay_scenario_sock) < 8"
    by (simp add: i d HYSTART_DELAY_def)
  note r1 = hystart_delay_detector [of ?p delay_scenario_sock 560 100,
      THEN conjunct1, THEN mp, OF h1]
  from r1 have first: "curr_rtt (ca (hystart_update ?p delay_scenario_sock 560 100)) = 560
      \<and> sample_cnt (ca (hystart_update ?p delay_scenario_sock 560 100)) = 1"
    by (simp add: i round_min_def)
  have h2: "hystart_detect ?p AND ucast HYSTART_DELAY \<noteq> 0
      \<and> ucast (found (ca ?s8)) AND hystart_detect ?p = 0
      \<and> curr_rtt (ca delay_scenario_sock) = 0 \<and> sample_cnt (ca delay_scenario_sock) = 0
      \<and> delay_scenario_samples \<noteq> [] \<and> length delay_scenario_samples \<le> 8
      \<and> 0 \<notin> set (map fst delay_scenario_samples)"
    unfolding delay_scenario_after_8
    by (simp add: i d l z HYSTART_DELAY_def sock_of_def zero_ca_def delay_scenario_samples_def)
  note r2 = hystart_delay_detector [where p = ?p and sk = delay_scenario_sock
      and ds = delay_scenario_samples, THEN conjunct2, THEN conjunct1, THEN mp, OF h2]
  from r2 have run: "curr_rtt (ca ?s8) = 560 \<and> sample_cnt (ca ?s8) = 8
      \<and> found (ca ?s8) = 0 \<and> tp ?s8 = tp delay_scenario_sock"
    unfolding m l by (simp add: i)
  have h3: "hystart_detect ?q = 2 \<and> ucast (found (ca delay_scenario_sock)) AND hystart_detect ?q = 0
      \<and> curr_rtt (ca delay_scenario_sock) = 0 \<and> sample_cnt (ca delay_scenario_sock) = 0
      \<and> delay_scenario_samples \<noteq> [] \<and> length delay_scenario_samples \<le> 8
      \<and> 0 \<notin> set (map fst delay_scenario_samples)"
    by (simp add: i l z delay_only_def delay_scenario_samples_def)
  note r3 = hystart_delay_detector [where p = ?q and sk = delay_scenario_sock
      and ds = delay_scenario_samples,
      THEN conjunct2, THEN conjunct2, THEN conjunct1, THEN mp, OF h3]
  from r3 have alone: "curr_rtt (ca ?t8) = 560 \<and> sample_cnt (ca ?t8) = 8"
    unfolding m l by simp
  have h4: "hystart_detect ?p AND ucast HYSTART_DELAY \<noteq> 0
      \<and> ucast (found (ca ?s8)) AND hystart_detect ?p = 0 \<and> 8 \<le> sample_cnt (ca ?s8)"
    using run by (simp add: d HYSTART_DELAY_def)
  have t: "unat (HYSTART_DELAY_THRESH ?p (drop_bit 3 400)) = 50"
    by (simp add: hystart_eval)
  have f: "delay_min (ca ?s8) + HYSTART_DELAY_THRESH ?p (drop_bit 3 (delay_min (ca ?s8)))
      < min (curr_rtt (ca ?s8)) 560"
    unfolding delay_scenario_after_8 by (simp add: hystart_eval)
  note r4 = hystart_delay_detector [where p = ?p and sk = ?s8 and delay = 560 and clock = 900,
      THEN conjunct2, THEN conjunct2, THEN conjunct2, THEN conjunct1, THEN mp, OF h4]
  from r4 f
  have fire: "found (ca (hystart_update ?p ?s8 560 900)) AND HYSTART_DELAY \<noteq> 0
      \<and> snd_ssthresh (tp (hystart_update ?p ?s8 560 900)) = snd_cwnd (tp ?s8)"
    by (simp del: min_less_iff_conj)
  from run have w: "snd_cwnd (tp ?s8) = 50" "snd_ssthresh (tp ?s8) = 1000" by (simp_all add: i)
  have d2: "hystart_detect ?q = 2" by (simp add: delay_only_def)
  from d i(1,2) l z first run w t fire d2 alone show ?thesis by simp
qed

section \<open>The window growth function\<close>

text \<open>The loop changes \<open>ack_cnt\<close> and \<open>tcp_cwnd\<close> only, and ends with \<open>ack_cnt \<le> delta\<close>.\<close>

lemma tcp_cwnd_loop_frame:
  assumes "tcp_cwnd_loop delta c = Some r"
  shows "r = c\<lparr>ack_cnt := ack_cnt r, tcp_cwnd := tcp_cwnd r\<rparr> \<and> ack_cnt r \<le> delta"
proof (rule tcp_cwnd_loop.raw_induct
    [where P = "\<lambda>d c r. r = c\<lparr>ack_cnt := ack_cnt r, tcp_cwnd := tcp_cwnd r\<rparr> \<and> ack_cnt r \<le> d",
      OF _ assms])
  fix loop :: "u32 \<Rightarrow> bictcp \<Rightarrow> bictcp option" and d c r
  assume ih: "\<And>d c r. loop d c = Some r \<Longrightarrow>
      r = c\<lparr>ack_cnt := ack_cnt r, tcp_cwnd := tcp_cwnd r\<rparr> \<and> ack_cnt r \<le> d"
    and eq: "(if d < ack_cnt c
         then loop d (c\<lparr>ack_cnt := ack_cnt c - d, tcp_cwnd := tcp_cwnd c + 1\<rparr>)
         else Some c) = Some r"
  show "r = c\<lparr>ack_cnt := ack_cnt r, tcp_cwnd := tcp_cwnd r\<rparr> \<and> ack_cnt r \<le> d"
  proof (cases "d < ack_cnt c")
    case True
    with eq have "loop d (c\<lparr>ack_cnt := ack_cnt c - d, tcp_cwnd := tcp_cwnd c + 1\<rparr>) = Some r"
      by simp
    from ih [OF this] show ?thesis by simp
  next
    case False
    with eq show ?thesis by auto
  qed
qed

text \<open>
  With a nonzero step the loop returns: it takes \<open>(ack_cnt - 1) div delta\<close> steps, one
  for every \<open>delta\<close> acknowledged packets counted in \<open>ack_cnt\<close>.
\<close>

lemma tcp_cwnd_loop_returns:
  assumes "delta \<noteq> 0"
  shows "tcp_cwnd_loop delta c =
     Some (c\<lparr>ack_cnt := ack_cnt c - of_nat ((unat (ack_cnt c) - 1) div unat delta) * delta,
             tcp_cwnd := tcp_cwnd c + of_nat ((unat (ack_cnt c) - 1) div unat delta)\<rparr>)"
proof (induction "unat (ack_cnt c)" arbitrary: c rule: less_induct)
  case less
  from assms have D: "0 < unat delta" by (simp add: unat_gt_0)
  show ?case
  proof (cases "delta < ack_cnt c")
    case False
    then have "unat (ack_cnt c) \<le> unat delta" by (simp add: word_less_nat_alt)
    with D have "(unat (ack_cnt c) - 1) div unat delta = 0" by simp
    with False show ?thesis by (subst tcp_cwnd_loop.simps) simp
  next
    case True
    let ?c = "c\<lparr>ack_cnt := ack_cnt c - delta, tcp_cwnd := tcp_cwnd c + 1\<rparr>"
    from True have lt: "unat delta < unat (ack_cnt c)" by (simp add: word_less_nat_alt)
    from True have "delta \<le> ack_cnt c" by simp
    then have sub: "unat (ack_cnt c - delta) = unat (ack_cnt c) - unat delta" by (rule unat_sub)
    with D lt have "unat (ack_cnt ?c) < unat (ack_cnt c)" by simp
    note ih = less [OF this]
    have "unat delta \<le> unat (ack_cnt c) - 1" using lt by simp
    then have "(unat (ack_cnt c) - 1) div unat delta
        = Suc ((unat (ack_cnt c) - 1 - unat delta) div unat delta)"
      using D by (simp add: le_div_geq)
    moreover have "unat (ack_cnt c) - 1 - unat delta = unat (ack_cnt ?c) - 1"
      using sub by simp
    ultimately have n: "(unat (ack_cnt c) - 1) div unat delta
        = Suc ((unat (ack_cnt ?c) - 1) div unat delta)" by simp
    have "tcp_cwnd_loop delta c = tcp_cwnd_loop delta ?c"
      using True by (subst tcp_cwnd_loop.simps) simp
    also note ih
    finally show ?thesis unfolding n by (simp add: algebra_simps)
  qed
qed

lemma tcp_cwnd_loop_idle:
  assumes "ack_cnt c \<le> delta"
  shows "tcp_cwnd_loop delta c = Some c"
proof -
  from assms have "\<not> delta < ack_cnt c" by simp
  then show ?thesis by (subst tcp_cwnd_loop.simps) simp
qed

text \<open>The friendliness part: what it keeps, when it returns and what it leaves in \<open>cnt\<close>.\<close>

lemma friendliness_frame:
  assumes "bictcp_update_friendliness p c cwnd = Some r"
  shows "\<exists>a t n. r = c\<lparr>ack_cnt := a, tcp_cwnd := t, cnt := n\<rparr> \<and> 2 \<le> n"
proof -
  from assms obtain c2 where c2: "r = c2\<lparr>cnt := max (cnt c2) 2\<rparr>"
    and f: "(if tcp_friendliness p \<noteq> 0 then
          Option.bind (tcp_cwnd_loop (drop_bit 3 (cwnd * beta_scale p)) c)
            (\<lambda>c1. Some
               (if cwnd < tcp_cwnd c1 then
                  (let delta = tcp_cwnd c1 - cwnd;
                       max_cnt = cwnd div delta
                   in if max_cnt < cnt c1 then c1\<lparr>cnt := max_cnt\<rparr> else c1)
                else c1))
        else Some c) = Some c2"
    by (auto simp: bictcp_update_friendliness_def bind_eq_Some_conv)
  have m: "2 \<le> max (cnt c2) 2" by simp
  have "\<exists>a t. c2 = c\<lparr>ack_cnt := a, tcp_cwnd := t, cnt := cnt c2\<rparr>"
  proof (cases "tcp_friendliness p \<noteq> 0")
    case False
    with f have "c2 = c" by simp
    then have "c2 = c\<lparr>ack_cnt := ack_cnt c, tcp_cwnd := tcp_cwnd c, cnt := cnt c2\<rparr>" by simp
    then show ?thesis by blast
  next
    case True
    with f obtain c1 where l: "tcp_cwnd_loop (drop_bit 3 (cwnd * beta_scale p)) c = Some c1"
      and e: "c2 = (if cwnd < tcp_cwnd c1 then
                  (let delta = tcp_cwnd c1 - cwnd;
                       max_cnt = cwnd div delta
                   in if max_cnt < cnt c1 then c1\<lparr>cnt := max_cnt\<rparr> else c1)
                else c1)"
      by (auto simp: bind_eq_Some_conv)
    from tcp_cwnd_loop_frame [OF l]
    have h: "c1 = c\<lparr>ack_cnt := ack_cnt c1, tcp_cwnd := tcp_cwnd c1\<rparr>" by simp
    have k: "c2 = c1\<lparr>cnt := cnt c2\<rparr>" unfolding e by (simp add: Let_def)
    note k
    also have "c1\<lparr>cnt := cnt c2\<rparr>
        = (c\<lparr>ack_cnt := ack_cnt c1, tcp_cwnd := tcp_cwnd c1\<rparr>)\<lparr>cnt := cnt c2\<rparr>"
      using h by (rule arg_cong [where f = "\<lambda>r. r\<lparr>cnt := cnt c2\<rparr>"])
    finally show ?thesis by blast
  qed
  then obtain a t where "c2 = c\<lparr>ack_cnt := a, tcp_cwnd := t, cnt := cnt c2\<rparr>" by blast
  then have "c2\<lparr>cnt := max (cnt c2) 2\<rparr>
      = (c\<lparr>ack_cnt := a, tcp_cwnd := t, cnt := cnt c2\<rparr>)\<lparr>cnt := max (cnt c2) 2\<rparr>"
    by (rule arg_cong [where f = "\<lambda>r. r\<lparr>cnt := max (cnt c2) 2\<rparr>"])
  with c2 have "r = c\<lparr>ack_cnt := a, tcp_cwnd := t, cnt := max (cnt c2) 2\<rparr>" by simp
  with m show ?thesis by blast
qed

text \<open>The friendliness part returns when it is switched off or the step of its loop is not zero.\<close>

lemma friendliness_returns:
  assumes "tcp_friendliness p = 0 \<or> drop_bit 3 (cwnd * beta_scale p) \<noteq> 0"
  shows "\<exists>r. bictcp_update_friendliness p c cwnd = Some r"
proof (cases "tcp_friendliness p = 0")
  case True
  then show ?thesis by (simp add: bictcp_update_friendliness_def)
next
  case False
  with assms have "drop_bit 3 (cwnd * beta_scale p) \<noteq> 0" by simp
  from tcp_cwnd_loop_returns [OF this, of c] False show ?thesis
    by (simp add: bictcp_update_friendliness_def)
qed

text \<open>The start of an epoch and the evaluation of the cubic function.\<close>

lemma epoch_returns: "\<exists>r. bictcp_update_epoch p c cwnd acked now = Some r"
proof -
  obtain x where "cubic_root (cube_factor p * ucast (last_max_cwnd c - cwnd)) = Some x"
    using cubic_root_returns by blast
  then show ?thesis by (simp add: bictcp_update_epoch_def Let_def)
qed

lemma epoch_sets:
  assumes "bictcp_update_epoch p c cwnd acked now = Some r"
  shows "last_cwnd r = cwnd" and "last_time r = now"
  using assms
  by (auto simp: bictcp_update_epoch_def Let_def bind_eq_Some_conv split: if_splits)

lemma epoch_keeps:
  assumes "bictcp_update_epoch p c cwnd acked now = Some r"
  shows "cnt r = cnt c" and "last_max_cwnd r = last_max_cwnd c" and "delay_min r = delay_min c"
    and "found r = found c" and "sample_cnt r = sample_cnt c" and "curr_rtt r = curr_rtt c"
    and "round_start r = round_start c" and "end_seq r = end_seq c"
    and "last_ack r = last_ack c" and "unused r = unused c"
  using assms
  by (auto simp: bictcp_update_epoch_def Let_def bind_eq_Some_conv split: if_splits)

lemma target_frame:
  assumes "bictcp_update_target p k c cwnd now = Some r"
  shows "\<exists>n. r = c\<lparr>cnt := n\<rparr>"
  using assms
  by (auto simp: bictcp_update_target_def Let_def split: if_splits)

lemma target_returns:
  "(word_of_int (HZ k) :: u32) \<noteq> 0 \<Longrightarrow> \<exists>r. bictcp_update_target p k c cwnd now = Some r"
  by (simp add: bictcp_update_target_def Let_def)

lemma cubic_returns:
  "(word_of_int (HZ k) :: u32) \<noteq> 0 \<Longrightarrow> \<exists>r. bictcp_update_cubic p k c cwnd acked now = Some r"
  using epoch_returns [of p c cwnd acked now] target_returns [of k p _ cwnd now]
  by (auto simp: bictcp_update_cubic_def)

lemma cubic_sets:
  assumes "bictcp_update_cubic p k c cwnd acked now = Some r"
  shows "last_cwnd r = cwnd" and "last_time r = now"
proof -
  from assms obtain c3 where e: "bictcp_update_epoch p c cwnd acked now = Some c3"
    and t: "bictcp_update_target p k c3 cwnd now = Some r"
    by (auto simp: bictcp_update_cubic_def bind_eq_Some_conv)
  from target_frame [OF t] obtain n where "r = c3\<lparr>cnt := n\<rparr>" by blast
  with epoch_sets [OF e] show "last_cwnd r = cwnd" and "last_time r = now" by simp_all
qed

lemma cubic_keeps:
  assumes "bictcp_update_cubic p k c cwnd acked now = Some r"
  shows "last_max_cwnd r = last_max_cwnd c" and "delay_min r = delay_min c"
    and "found r = found c" and "sample_cnt r = sample_cnt c" and "curr_rtt r = curr_rtt c"
    and "round_start r = round_start c" and "end_seq r = end_seq c"
    and "last_ack r = last_ack c" and "unused r = unused c"
proof -
  from assms obtain c3 where e: "bictcp_update_epoch p c cwnd acked now = Some c3"
    and t: "bictcp_update_target p k c3 cwnd now = Some r"
    by (auto simp: bictcp_update_cubic_def bind_eq_Some_conv)
  from target_frame [OF t] obtain n where r: "r = c3\<lparr>cnt := n\<rparr>" by blast
  note k = epoch_keeps [OF e]
  show "last_max_cwnd r = last_max_cwnd c" and "delay_min r = delay_min c"
    and "found r = found c" and "sample_cnt r = sample_cnt c" and "curr_rtt r = curr_rtt c"
    and "round_start r = round_start c" and "end_seq r = end_seq c"
    and "last_ack r = last_ack c" and "unused r = unused c"
    by (simp_all add: r k)
qed

lemma friendliness_keeps:
  assumes "bictcp_update_friendliness p c cwnd = Some r"
  shows "last_cwnd r = last_cwnd c" and "last_time r = last_time c"
    and "epoch_start r = epoch_start c" and "bic_K r = bic_K c"
    and "bic_origin_point r = bic_origin_point c"
    and "last_max_cwnd r = last_max_cwnd c" and "delay_min r = delay_min c"
    and "found r = found c" and "sample_cnt r = sample_cnt c" and "curr_rtt r = curr_rtt c"
    and "round_start r = round_start c" and "end_seq r = end_seq c"
    and "last_ack r = last_ack c" and "unused r = unused c"
    and "2 \<le> cnt r"
proof -
  from friendliness_frame [OF assms] obtain a t n
    where r: "r = c\<lparr>ack_cnt := a, tcp_cwnd := t, cnt := n\<rparr>" and n: "2 \<le> n" by blast
  show "last_cwnd r = last_cwnd c" and "last_time r = last_time c"
    and "epoch_start r = epoch_start c" and "bic_K r = bic_K c"
    and "bic_origin_point r = bic_origin_point c"
    and "last_max_cwnd r = last_max_cwnd c" and "delay_min r = delay_min c"
    and "found r = found c" and "sample_cnt r = sample_cnt c" and "curr_rtt r = curr_rtt c"
    and "round_start r = round_start c" and "end_seq r = end_seq c"
    and "last_ack r = last_ack c" and "unused r = unused c"
    and "2 \<le> cnt r"
    using n by (simp_all add: r)
qed

text \<open>\<open>bictcp_update\<close> by its three paths.\<close>

lemma bictcp_update_paths:
  "bictcp_update p k c cwnd acked now =
     (if rate_limited k c cwnd now then Some (c\<lparr>ack_cnt := ack_cnt c + acked\<rparr>)
      else if once_per_jiffy c now
        then bictcp_update_friendliness p (c\<lparr>ack_cnt := ack_cnt c + acked\<rparr>) cwnd
      else Option.bind (bictcp_update_cubic p k (c\<lparr>ack_cnt := ack_cnt c + acked\<rparr>) cwnd acked now)
             (\<lambda>c1. bictcp_update_friendliness p c1 cwnd))"
  by (simp add: bictcp_update_def rate_limited_def once_per_jiffy_def Let_def)

lemma bictcp_update_keeps:
  assumes "bictcp_update p k c cwnd acked now = Some r"
  shows "last_max_cwnd r = last_max_cwnd c" and "delay_min r = delay_min c"
    and "found r = found c" and "sample_cnt r = sample_cnt c" and "curr_rtt r = curr_rtt c"
    and "round_start r = round_start c" and "end_seq r = end_seq c"
    and "last_ack r = last_ack c" and "unused r = unused c"
proof -
  let ?c = "c\<lparr>ack_cnt := ack_cnt c + acked\<rparr>"
  consider (a) "rate_limited k c cwnd now"
    | (b) "\<not> rate_limited k c cwnd now" "once_per_jiffy c now"
    | (c) "\<not> rate_limited k c cwnd now" "\<not> once_per_jiffy c now" by blast
  then have "last_max_cwnd r = last_max_cwnd c \<and> delay_min r = delay_min c
    \<and> found r = found c \<and> sample_cnt r = sample_cnt c \<and> curr_rtt r = curr_rtt c
    \<and> round_start r = round_start c \<and> end_seq r = end_seq c
    \<and> last_ack r = last_ack c \<and> unused r = unused c"
  proof cases
    case a
    with assms have "r = ?c" by (simp add: bictcp_update_paths)
    then show ?thesis by simp
  next
    case b
    with assms have "bictcp_update_friendliness p ?c cwnd = Some r"
      by (simp add: bictcp_update_paths)
    from friendliness_keeps [OF this] show ?thesis by simp
  next
    case c
    with assms obtain c1 where u: "bictcp_update_cubic p k ?c cwnd acked now = Some c1"
      and f: "bictcp_update_friendliness p c1 cwnd = Some r"
      by (auto simp: bictcp_update_paths bind_eq_Some_conv)
    from friendliness_keeps [OF f] cubic_keeps [OF u] show ?thesis by simp
  qed
  then show "last_max_cwnd r = last_max_cwnd c" and "delay_min r = delay_min c"
    and "found r = found c" and "sample_cnt r = sample_cnt c" and "curr_rtt r = curr_rtt c"
    and "round_start r = round_start c" and "end_seq r = end_seq c"
    and "last_ack r = last_ack c" and "unused r = unused c" by simp_all
qed

lemma bictcp_update_floor:
  assumes "bictcp_update p k c cwnd acked now = Some r"
  shows "cnt_floor c \<Longrightarrow> cnt_floor r" and "cnt_floor c \<Longrightarrow> cwnd \<noteq> 0 \<Longrightarrow> 2 \<le> cnt r"
proof -
  let ?c = "c\<lparr>ack_cnt := ack_cnt c + acked\<rparr>"
  consider (a) "rate_limited k c cwnd now"
    | (b) "\<not> rate_limited k c cwnd now" "once_per_jiffy c now"
    | (c) "\<not> rate_limited k c cwnd now" "\<not> once_per_jiffy c now" by blast
  then have "(cnt_floor c \<longrightarrow> cnt_floor r) \<and> (cnt_floor c \<longrightarrow> cwnd \<noteq> 0 \<longrightarrow> 2 \<le> cnt r)"
  proof cases
    case a
    with assms have "r = ?c" by (simp add: bictcp_update_paths)
    with a show ?thesis by (auto simp: cnt_floor_def rate_limited_def)
  next
    case b
    with assms have "bictcp_update_friendliness p ?c cwnd = Some r"
      by (simp add: bictcp_update_paths)
    from friendliness_keeps(15) [OF this] show ?thesis by (simp add: cnt_floor_def)
  next
    case c
    with assms obtain c1 where f: "bictcp_update_friendliness p c1 cwnd = Some r"
      by (auto simp: bictcp_update_paths bind_eq_Some_conv)
    from friendliness_keeps(15) [OF f] show ?thesis by (simp add: cnt_floor_def)
  qed
  then show "cnt_floor c \<Longrightarrow> cnt_floor r" and "cnt_floor c \<Longrightarrow> cwnd \<noteq> 0 \<Longrightarrow> 2 \<le> cnt r"
    by simp_all
qed

lemma bictcp_update_returns:
  assumes "(word_of_int (HZ k) :: u32) \<noteq> 0"
    and "tcp_friendliness p = 0 \<or> drop_bit 3 (cwnd * beta_scale p) \<noteq> 0"
  shows "\<exists>r. bictcp_update p k c cwnd acked now = Some r"
proof -
  let ?c = "c\<lparr>ack_cnt := ack_cnt c + acked\<rparr>"
  from cubic_returns [OF assms(1)] obtain c1
    where c1: "bictcp_update_cubic p k ?c cwnd acked now = Some c1" by blast
  from friendliness_returns [OF assms(2)] obtain r1 r2
    where "bictcp_update_friendliness p ?c cwnd = Some r1"
      and "bictcp_update_friendliness p c1 cwnd = Some r2" by blast
  with c1 show ?thesis by (simp add: bictcp_update_paths)
qed

text \<open>The private area after \<open>bictcp_cong_avoid\<close>.\<close>

lemma cong_avoid_ca:
  assumes "bictcp_cong_avoid p k sk ack acked now clock = Some sk'"
  shows "\<exists>c0. (c0 = ca sk \<or> c0 = ca (bictcp_hystart_reset sk clock))
           \<and> (ca sk' = c0 \<or> (\<exists>w a. bictcp_update p k c0 w a now = Some (ca sk')))"
proof (cases "tcp_is_cwnd_limited k (tp sk)")
  case False
  with assms have "sk' = sk" by (simp add: bictcp_cong_avoid_def)
  then show ?thesis by blast
next
  case True
  show ?thesis
  proof (cases "tcp_in_slow_start k (tp sk)")
    case False
    with True assms obtain c where "bictcp_update p k (ca sk) (snd_cwnd (tp sk)) acked now = Some c"
      and "sk' = sk\<lparr>ca := c, tp := tcp_cong_avoid_ai k (tp sk) (cnt c) acked\<rparr>"
      by (auto simp: bictcp_cong_avoid_def bind_eq_Some_conv)
    then have "bictcp_update p k (ca sk) (snd_cwnd (tp sk)) acked now = Some (ca sk')" by simp
    then show ?thesis by blast
  next
    case ss: True
    define sk0 where "sk0 = (if hystart p \<noteq> 0 \<and> after ack (end_seq (ca sk))
                          then bictcp_hystart_reset sk clock else sk)"
    obtain tp1 a1 where s: "tcp_slow_start k (tp sk0) acked = (tp1, a1)" by (cases "tcp_slow_start k (tp sk0) acked")
    have c0: "ca sk0 = ca sk \<or> ca sk0 = ca (bictcp_hystart_reset sk clock)"
      by (simp add: sk0_def)
    show ?thesis
    proof (cases "a1 = 0")
      case True
      with \<open>tcp_is_cwnd_limited k (tp sk)\<close> ss assms s have "sk' = sk0\<lparr>tp := tp1\<rparr>"
        by (simp add: bictcp_cong_avoid_def sk0_def Let_def)
      then have "ca sk' = ca sk0" by simp
      with c0 show ?thesis by blast
    next
      case False
      with \<open>tcp_is_cwnd_limited k (tp sk)\<close> ss assms s
      obtain c where "bictcp_update p k (ca sk0) (snd_cwnd tp1) a1 now = Some c"
        and "sk' = sk0\<lparr>tp := tp1, ca := c, tp := tcp_cong_avoid_ai k tp1 (cnt c) a1\<rparr>"
        by (auto simp: bictcp_cong_avoid_def sk0_def Let_def bind_eq_Some_conv)
      then have "bictcp_update p k (ca sk0) (snd_cwnd tp1) a1 now = Some (ca sk')" by simp
      with c0 show ?thesis by blast
    qed
  qed
qed

lemmas bictcp_update_eval = bictcp_update_paths rate_limited_def once_per_jiffy_def
  bictcp_update_friendliness_def bictcp_update_cubic_def bictcp_update_epoch_def
  bictcp_update_target_def jiffy_scenario_def reno_scenario_def zero_ca_def sock_of_def
  BICTCP_HZ_def registered_defaults_def module_defaults_def kernel_1000_def Let_def

section \<open>The callbacks and the reachable states\<close>

lemma hystart_ack_train_found:
  "found (ca (hystart_ack_train p sk clock)) = found (ca sk)
   \<or> (found (ca (hystart_ack_train p sk clock)) = found (ca sk) OR HYSTART_ACK_TRAIN
      \<and> hystart_detect p AND ucast HYSTART_ACK_TRAIN \<noteq> 0)"
  by (simp add: hystart_ack_train_def Let_def)

lemma hystart_delay_found:
  "found (ca (hystart_delay p sk delay)) = found (ca sk)
   \<or> (found (ca (hystart_delay p sk delay)) = found (ca sk) OR HYSTART_DELAY
      \<and> hystart_detect p AND ucast HYSTART_DELAY \<noteq> 0)"
  by (simp add: hystart_delay_def Let_def)

lemma hystart_update_sets_guard:
  assumes "found (ca (hystart_update p sk delay clock)) \<noteq> found (ca sk)"
  shows "ucast (found (ca (hystart_update p sk delay clock))) AND hystart_detect p \<noteq> 0"
proof -
  let ?t = "hystart_ack_train p sk clock"
  have g: "ucast (found (ca sk)) AND hystart_detect p = 0"
  proof (rule ccontr)
    assume "ucast (found (ca sk)) AND hystart_detect p \<noteq> 0"
    then have "hystart_update p sk delay clock = sk" by (simp add: hystart_update_def)
    with assms show False by simp
  qed
  then have u: "hystart_update p sk delay clock = hystart_delay p ?t delay"
    by (simp add: hystart_update_def)
  from hystart_delay_found [of p ?t delay] show ?thesis
  proof
    assume d: "found (ca (hystart_delay p ?t delay)) = found (ca ?t)"
    with assms u have "found (ca ?t) \<noteq> found (ca sk)" by simp
    with hystart_ack_train_found [of p sk clock]
    have "found (ca ?t) = found (ca sk) OR HYSTART_ACK_TRAIN"
      and "hystart_detect p AND ucast HYSTART_ACK_TRAIN \<noteq> 0" by auto
    with flag_in_guard [of "hystart_detect p" HYSTART_ACK_TRAIN "found (ca sk)"] d u
    show ?thesis by simp
  next
    assume "found (ca (hystart_delay p ?t delay)) = found (ca ?t) OR HYSTART_DELAY
      \<and> hystart_detect p AND ucast HYSTART_DELAY \<noteq> 0"
    with flag_in_guard [of "hystart_detect p" HYSTART_DELAY "found (ca ?t)"] u
    show ?thesis by simp
  qed
qed

lemma hystart_update_keeps:
  "delay_min (ca (hystart_update p sk delay clock)) = delay_min (ca sk)"
  "cnt (ca (hystart_update p sk delay clock)) = cnt (ca sk)"
  "last_cwnd (ca (hystart_update p sk delay clock)) = last_cwnd (ca sk)"
  by (simp_all add: hystart_update_def hystart_ack_train_def hystart_delay_def Let_def)

lemma bictcp_acked_keeps:
  "delay_min (ca (bictcp_acked p k sk rtt_us now clock)) = delay_min (ca sk)"
  "cnt (ca (bictcp_acked p k sk rtt_us now clock)) = cnt (ca sk)"
  "last_cwnd (ca (bictcp_acked p k sk rtt_us now clock)) = last_cwnd (ca sk)"
  by (simp_all add: bictcp_acked_def Let_def hystart_update_keeps)

lemma bictcp_acked_guarded:
  assumes "ucast (found (ca sk)) AND hystart_detect p \<noteq> 0"
  shows "bictcp_acked p k sk rtt_us now clock = sk"
  using assms by (simp add: bictcp_acked_def Let_def hystart_update_def)

lemma cong_avoid_found:
  assumes "bictcp_cong_avoid p k sk ack acked now clock = Some sk'"
  shows "found (ca sk') = found (ca sk)" and "delay_min (ca sk') = delay_min (ca sk)"
proof -
  from cong_avoid_ca [OF assms] obtain c0
    where c0: "c0 = ca sk \<or> c0 = ca (bictcp_hystart_reset sk clock)"
      and r: "ca sk' = c0 \<or> (\<exists>w a. bictcp_update p k c0 w a now = Some (ca sk'))" by blast
  from c0 have "found c0 = found (ca sk) \<and> delay_min c0 = delay_min (ca sk)"
    by (auto simp: bictcp_hystart_reset_def)
  moreover from r have "found (ca sk') = found c0 \<and> delay_min (ca sk') = delay_min c0"
    by (auto dest: bictcp_update_keeps)
  ultimately show "found (ca sk') = found (ca sk)" and "delay_min (ca sk') = delay_min (ca sk)"
    by simp_all
qed

lemma cong_avoid_floor:
  assumes "bictcp_cong_avoid p k sk ack acked now clock = Some sk'" and "cnt_floor (ca sk)"
  shows "cnt_floor (ca sk')"
proof -
  from cong_avoid_ca [OF assms(1)] obtain c0
    where c0: "c0 = ca sk \<or> c0 = ca (bictcp_hystart_reset sk clock)"
      and r: "ca sk' = c0 \<or> (\<exists>w a. bictcp_update p k c0 w a now = Some (ca sk'))" by blast
  from c0 assms(2) have "cnt_floor c0" by (auto simp: bictcp_hystart_reset_def cnt_floor_def)
  with r show ?thesis by (auto dest: bictcp_update_floor(1))
qed

lemma reachable_invariant:
  assumes "reachable p k sk"
  shows "delay_min (ca sk) = 0 \<and> cnt_floor (ca sk)"
  using assms
proof (induction rule: reachable.induct)
  case (r_init sk clock)
  show ?case
    by (simp add: bictcp_init_def bictcp_reset_def bictcp_hystart_reset_def cnt_floor_def Let_def)
next
  case (r_ssthresh sk)
  then show ?case by (simp add: bictcp_recalc_ssthresh_def cnt_floor_def Let_def)
next
  case (r_cong_avoid sk ack acked now clock sk')
  with cong_avoid_found(2) [OF r_cong_avoid(2)] cong_avoid_floor [OF r_cong_avoid(2)]
  show ?case by simp
next
  case (r_set_state sk new_state clock)
  then show ?case
    by (simp add: bictcp_state_def bictcp_reset_def bictcp_hystart_reset_def cnt_floor_def)
next
  case (r_cwnd_event sk event now)
  then show ?case by (simp add: bictcp_cwnd_event_def cnt_floor_def Let_def)
next
  case (r_pkts_acked sk rtt_us now clock)
  then show ?case by (simp add: bictcp_acked_keeps cnt_floor_def)
next
  case (r_stack sk t)
  then show ?case by simp
qed

lemma bictcp_acked_found:
  "found (ca (bictcp_acked p k sk rtt_us now clock)) = found (ca sk)
   \<or> ucast (found (ca (bictcp_acked p k sk rtt_us now clock))) AND hystart_detect p \<noteq> 0"
proof (cases "found (ca (bictcp_acked p k sk rtt_us now clock)) = found (ca sk)")
  case True
  then show ?thesis by simp
next
  case False
  then obtain delay where a: "bictcp_acked p k sk rtt_us now clock = hystart_update p sk delay clock"
    by (auto simp: bictcp_acked_def Let_def split: if_splits)
  with False have "found (ca (hystart_update p sk delay clock)) \<noteq> found (ca sk)" by simp
  from hystart_update_sets_guard [OF this] a show ?thesis by simp
qed

lemma reachable_found:
  assumes "reachable p k sk"
  shows "found (ca sk) = 0 \<or> ucast (found (ca sk)) AND hystart_detect p \<noteq> 0"
  using assms
proof (induction rule: reachable.induct)
  case (r_init sk clock)
  show ?case
    by (simp add: bictcp_init_def bictcp_reset_def bictcp_hystart_reset_def Let_def)
next
  case (r_ssthresh sk)
  then show ?case by (simp add: bictcp_recalc_ssthresh_def Let_def)
next
  case (r_cong_avoid sk ack acked now clock sk')
  with cong_avoid_found(1) [OF r_cong_avoid(2)] show ?case by simp
next
  case (r_set_state sk new_state clock)
  then show ?case
    by (simp add: bictcp_state_def bictcp_reset_def bictcp_hystart_reset_def)
next
  case (r_cwnd_event sk event now)
  then show ?case by (simp add: bictcp_cwnd_event_def Let_def)
next
  case (r_pkts_acked sk rtt_us now clock)
  with bictcp_acked_found [of p k sk rtt_us now clock] show ?case by auto
next
  case (r_stack sk t)
  then show ?case by simp
qed

lemma run_callbacks_guarded:
  assumes "ucast (found (ca sk)) AND hystart_detect p \<noteq> 0"
  shows "run_callbacks p k sk cs = Some sk' \<Longrightarrow> found (ca sk') = found (ca sk)"
    and "list_all is_pkts_acked cs \<Longrightarrow> run_callbacks p k sk cs = Some sk"
  using assms
proof (induction cs arbitrary: sk)
  case Nil
  { case 1 then show ?case by simp }
  { case 2 then show ?case by simp }
next
  case (Cons x cs)
  { case 1
    show ?case
    proof (cases x)
      case (Pkts_acked r n c)
      with 1 Cons.IH(1) [of sk] show ?thesis by (simp add: bictcp_acked_guarded)
    next
      case (Cong_avoid a m n c)
      with 1(1) obtain sk1 where s: "bictcp_cong_avoid p k sk a m n c = Some sk1"
        and r: "run_callbacks p k sk1 cs = Some sk'" by (auto simp: bind_eq_Some_conv)
      from cong_avoid_found(1) [OF s] have f: "found (ca sk1) = found (ca sk)" .
      with 1(2) have "ucast (found (ca sk1)) AND hystart_detect p \<noteq> 0" by simp
      from Cons.IH(1) [OF r this] f show ?thesis by simp
    qed }
  { case 2
    then obtain r n c where x: "x = Pkts_acked r n c" by (cases x) auto
    with 2 Cons.IH(2) [of sk] show ?case by (simp add: bictcp_acked_guarded) }
qed

lemma fresh_sock_eq: "fresh_sock = sock_of 20 100 zero_ca"
  by (simp add: fresh_sock_def bictcp_init_def bictcp_reset_def bictcp_hystart_reset_def
      registered_defaults_def module_defaults_def sock_of_def zero_ca_def Let_def)

lemmas bictcp_acked_eval = bictcp_acked_def kernel_1000_def hystart_eval

text \<open>
  C1 fails on the code.  \<open>bictcp_acked\<close> never assigns \<open>delay_min\<close>: a valid sample of
  50 ms (\<open>rtt_us = 50000\<close>, a delay of 400), given to a socket in slow start that was
  just initialised (no epoch, \<open>delay_min = 0\<close>), reaches \<open>hystart_update\<close>, which
  records it as \<open>curr_rtt = 400\<close>, and \<open>delay_min\<close> is still 0 afterwards.
\<close>

theorem bictcp_acked_leaves_delay_min:
  "delay_min (ca (bictcp_acked registered_defaults kernel_1000 fresh_sock 50000 1000 1000)) = 0
   \<and> curr_rtt (ca (bictcp_acked registered_defaults kernel_1000 fresh_sock 50000 1000 1000)) = 400"
  unfolding fresh_sock_eq by (simp add: bictcp_acked_eval)

text \<open>
  C9.  In every state that the callbacks can reach, \<open>delay_min\<close> is 0.  The ACK-train
  detector therefore compares the time since the start of the round with
  \<open>delay_min >> 4 = 0\<close>, and the threshold of the delay detector is
  \<open>delay_min + HYSTART_DELAY_THRESH(delay_min >> 3) = 32\<close>, the lower bound of the clamp.
\<close>

theorem delay_min_always_zero:
  assumes "reachable p k sk"
  shows "delay_min (ca sk) = 0
    \<and> drop_bit 4 (delay_min (ca sk)) = 0
    \<and> HYSTART_DELAY_THRESH p (drop_bit 3 (delay_min (ca sk))) = HYSTART_DELAY_MIN
    \<and> delay_min (ca sk) + HYSTART_DELAY_THRESH p (drop_bit 3 (delay_min (ca sk))) = 32"
proof -
  from reachable_invariant [OF assms] have z: "delay_min (ca sk) = 0" by simp
  have "HYSTART_DELAY_THRESH p 0 = 32"
    by (simp add: HYSTART_DELAY_THRESH_def clamp_def HYSTART_DELAY_MIN_def
        HYSTART_DELAY_MAX_def INT_MAX_def)
  with z show ?thesis by (simp add: HYSTART_DELAY_MIN_def)
qed

theorem delay_min_always_zero_witness:
  "reachable registered_defaults kernel_1000
     (bictcp_acked registered_defaults kernel_1000 fresh_sock 50000 1000 1000)
   \<and> delay_min (ca (bictcp_acked registered_defaults kernel_1000 fresh_sock 50000 1000 1000)) = 0"
proof -
  have "reachable registered_defaults kernel_1000 fresh_sock"
    unfolding fresh_sock_def by (rule r_init)
  then have r: "reachable registered_defaults kernel_1000
     (bictcp_acked registered_defaults kernel_1000 fresh_sock 50000 1000 1000)"
    by (rule r_pkts_acked)
  from delay_min_always_zero [OF r] r show ?thesis by blast
qed

lemma cong_avoid_update:
  assumes "bictcp_cong_avoid p k sk ack acked now clock = Some sk'"
    and "reaches_update k sk acked"
  shows "\<exists>c0 a. (c0 = ca sk \<or> c0 = ca (bictcp_hystart_reset sk clock))
           \<and> bictcp_update p k c0 (update_window k sk acked) a now = Some (ca sk')"
proof (cases "tcp_in_slow_start k (tp sk)")
  case False
  with assms obtain c where "bictcp_update p k (ca sk) (snd_cwnd (tp sk)) acked now = Some c"
    and "sk' = sk\<lparr>ca := c, tp := tcp_cong_avoid_ai k (tp sk) (cnt c) acked\<rparr>"
    by (auto simp: bictcp_cong_avoid_def reaches_update_def bind_eq_Some_conv)
  then have "bictcp_update p k (ca sk) (snd_cwnd (tp sk)) acked now = Some (ca sk')" by simp
  with False show ?thesis by (auto simp: update_window_def)
next
  case True
  define sk0 where "sk0 = (if hystart p \<noteq> 0 \<and> after ack (end_seq (ca sk))
                        then bictcp_hystart_reset sk clock else sk)"
  have t: "tp sk0 = tp sk" by (simp add: sk0_def bictcp_hystart_reset_def)
  obtain tp1 a1 where s: "tcp_slow_start k (tp sk) acked = (tp1, a1)"
    by (cases "tcp_slow_start k (tp sk) acked")
  from assms(2) True s have l: "tcp_is_cwnd_limited k (tp sk)" and a1: "a1 \<noteq> 0"
    by (simp_all add: reaches_update_def)
  have c0: "ca sk0 = ca sk \<or> ca sk0 = ca (bictcp_hystart_reset sk clock)"
    by (simp add: sk0_def)
  from l True assms(1) s a1 t
  obtain c where "bictcp_update p k (ca sk0) (snd_cwnd tp1) a1 now = Some c"
    and "sk' = sk0\<lparr>tp := tp1, ca := c, tp := tcp_cong_avoid_ai k tp1 (cnt c) a1\<rparr>"
    by (auto simp: bictcp_cong_avoid_def sk0_def [symmetric] Let_def bind_eq_Some_conv)
  then have "bictcp_update p k (ca sk0) (snd_cwnd tp1) a1 now = Some (ca sk')" by simp
  moreover from True s have "update_window k sk acked = snd_cwnd tp1"
    by (simp add: update_window_def)
  ultimately show ?thesis using c0 by auto
qed

text \<open>
  C3.  In every state that the callbacks can reach, a call of \<open>bictcp_update\<close> with a
  nonzero window that returns leaves \<open>cnt\<close> at 2 or more, and it does return when \<open>HZ\<close>
  is not zero and the step of the friendliness loop is not zero.  Hence every call of
  \<open>bictcp_cong_avoid\<close> that reaches the update, with a nonzero window, leaves
  \<open>cnt\<close> at 2 or more.
\<close>

theorem cnt_at_least_2:
  assumes "reachable p k sk"
  shows "(cwnd \<noteq> 0 \<and> bictcp_update p k (ca sk) cwnd acked now = Some r \<longrightarrow> 2 \<le> cnt r)
    \<and> (cwnd \<noteq> 0 \<and> (word_of_int (HZ k) :: u32) \<noteq> 0
        \<and> (tcp_friendliness p = 0 \<or> drop_bit 3 (cwnd * beta_scale p) \<noteq> 0)
       \<longrightarrow> (\<exists>r. bictcp_update p k (ca sk) cwnd acked now = Some r \<and> 2 \<le> cnt r))
    \<and> (reaches_update k sk acked \<and> update_window k sk acked \<noteq> 0
        \<and> bictcp_cong_avoid p k sk ack acked now clock = Some sk'
       \<longrightarrow> 2 \<le> cnt (ca sk'))"
proof (intro conjI impI)
  from reachable_invariant [OF assms(1)] have f: "cnt_floor (ca sk)" by simp
  show "2 \<le> cnt r" if a: "cwnd \<noteq> 0 \<and> bictcp_update p k (ca sk) cwnd acked now = Some r"
  proof -
    from a have u: "bictcp_update p k (ca sk) cwnd acked now = Some r" and n: "cwnd \<noteq> 0"
      by simp_all
    from bictcp_update_floor(2) [OF u f n] show ?thesis .
  qed
  show "\<exists>r. bictcp_update p k (ca sk) cwnd acked now = Some r \<and> 2 \<le> cnt r"
    if a: "cwnd \<noteq> 0 \<and> (word_of_int (HZ k) :: u32) \<noteq> 0
        \<and> (tcp_friendliness p = 0 \<or> drop_bit 3 (cwnd * beta_scale p) \<noteq> 0)"
  proof -
    from a have n: "cwnd \<noteq> 0" by simp
    from a bictcp_update_returns [of k p cwnd "ca sk" acked now]
    obtain r where r: "bictcp_update p k (ca sk) cwnd acked now = Some r" by blast
    from bictcp_update_floor(2) [OF r f n] r show ?thesis by blast
  qed
  show "2 \<le> cnt (ca sk')"
    if a: "reaches_update k sk acked \<and> update_window k sk acked \<noteq> 0
        \<and> bictcp_cong_avoid p k sk ack acked now clock = Some sk'"
  proof -
    from a have r: "reaches_update k sk acked" and n: "update_window k sk acked \<noteq> 0"
      and s: "bictcp_cong_avoid p k sk ack acked now clock = Some sk'" by simp_all
    from cong_avoid_update [OF s r] obtain c0 a
      where c0: "c0 = ca sk \<or> c0 = ca (bictcp_hystart_reset sk clock)"
        and u: "bictcp_update p k c0 (update_window k sk acked) a now = Some (ca sk')"
      by blast
    from c0 f have "cnt_floor c0" by (auto simp: bictcp_hystart_reset_def cnt_floor_def)
    from bictcp_update_floor(2) [OF u this n] show ?thesis .
  qed
qed

text \<open>
  The first ACK of a fresh connection.  At a window of 10 the epoch starts, the cubic
  function asks for 1000 ACKs per segment and the first-epoch clamp makes it 20.  Given
  to \<open>bictcp_cong_avoid\<close> in slow start at a window of 20, the ACK starts a round,
  reaches the update and leaves \<open>cnt = 20\<close> as well.
\<close>

theorem cnt_at_least_2_witness:
  "reachable registered_defaults kernel_1000 fresh_sock \<and> (10 :: u32) \<noteq> 0
   \<and> bictcp_update registered_defaults kernel_1000 (ca fresh_sock) 10 1 100
       = Some (zero_ca\<lparr>last_cwnd := 10, last_time := 100, epoch_start := 100, ack_cnt := 1,
                 tcp_cwnd := 10, bic_K := 0, bic_origin_point := 10, cnt := 20\<rparr>)
   \<and> 2 \<le> cnt (zero_ca\<lparr>last_cwnd := 10, last_time := 100, epoch_start := 100, ack_cnt := 1,
                 tcp_cwnd := 10, bic_K := 0, bic_origin_point := 10, cnt := 20\<rparr>)
   \<and> reaches_update kernel_1000 fresh_sock 1 \<and> update_window kernel_1000 fresh_sock 1 = 20
   \<and> bictcp_cong_avoid registered_defaults kernel_1000 fresh_sock 1 1 100 100
       = Some (fresh_sock\<lparr>ca := zero_ca\<lparr>last_cwnd := 20, last_time := 100, epoch_start := 100,
                 ack_cnt := 1, tcp_cwnd := 20, bic_K := 0, bic_origin_point := 20, cnt := 20,
                 round_start := 100, last_ack := 100\<rparr>\<rparr>)"
proof -
  let ?c = "zero_ca\<lparr>last_cwnd := 10, last_time := 100, epoch_start := 100, ack_cnt := 1,
                 tcp_cwnd := 10, bic_K := 0, bic_origin_point := 10, cnt := 20\<rparr>"
  have r: "reachable registered_defaults kernel_1000 fresh_sock"
    unfolding fresh_sock_def by (rule r_init)
  have e: "(10 :: u32) \<noteq> 0
      \<and> bictcp_update registered_defaults kernel_1000 (ca fresh_sock) 10 1 100 = Some ?c"
    unfolding fresh_sock_eq by (simp add: bictcp_update_eval tcp_cwnd_loop_idle)
  from cnt_at_least_2 [OF r, THEN conjunct1, THEN mp, OF e]
  have c: "2 \<le> cnt ?c" .
  have u: "reaches_update kernel_1000 fresh_sock 1 \<and> update_window kernel_1000 fresh_sock 1 = 20"
    unfolding fresh_sock_eq
    by (simp add: reaches_update_def update_window_def kernel_1000_def sock_of_def)
  have a: "bictcp_cong_avoid registered_defaults kernel_1000 fresh_sock 1 1 100 100
       = Some (fresh_sock\<lparr>ca := zero_ca\<lparr>last_cwnd := 20, last_time := 100, epoch_start := 100,
                 ack_cnt := 1, tcp_cwnd := 20, bic_K := 0, bic_origin_point := 20, cnt := 20,
                 round_start := 100, last_ack := 100\<rparr>\<rparr>)"
    unfolding fresh_sock_eq
    by (simp add: bictcp_cong_avoid_def bictcp_hystart_reset_def after_def bictcp_update_eval
        tcp_cwnd_loop_idle)
  from r e c u a show ?thesis by blast
qed

text \<open>
  C7.  Once a flag that the configuration selects is recorded in \<open>found\<close>,
  \<open>hystart_update\<close> returns the socket as it is, and so does \<open>bictcp_acked\<close>;
  \<open>bictcp_cong_avoid\<close> never calls the detector and keeps \<open>found\<close>, so the guard holds
  after any run of the two callbacks, and a run of \<open>bictcp_acked\<close> calls changes
  nothing.  A flag that \<open>hystart_update\<close> itself sets is always a selected one, and in
  every state that the callbacks can reach a nonzero \<open>found\<close> holds a selected flag.
\<close>

theorem hystart_single_fire:
  assumes "ucast (found (ca sk)) AND hystart_detect p \<noteq> 0"
  shows "hystart_update p sk delay clock = sk
    \<and> bictcp_acked p k sk rtt_us now clock = sk
    \<and> (run_callbacks p k sk cs = Some sk' \<longrightarrow>
         found (ca sk') = found (ca sk) \<and> (\<forall>d c. hystart_update p sk' d c = sk'))
    \<and> (list_all is_pkts_acked cs \<longrightarrow> run_callbacks p k sk cs = Some sk)
    \<and> (found (ca (hystart_update p sk0 d0 c0)) \<noteq> found (ca sk0) \<longrightarrow>
         (\<forall>d c. hystart_update p (hystart_update p sk0 d0 c0) d c = hystart_update p sk0 d0 c0))
    \<and> (reachable p k sk1 \<and> found (ca sk1) \<noteq> 0 \<longrightarrow>
         (\<forall>d c. hystart_update p sk1 d c = sk1))"
proof (intro conjI impI allI)
  from assms show "hystart_update p sk delay clock = sk" by (simp add: hystart_update_def)
  from assms show "bictcp_acked p k sk rtt_us now clock = sk" by (rule bictcp_acked_guarded)
next
  assume r: "run_callbacks p k sk cs = Some sk'"
  from run_callbacks_guarded(1) [OF assms r]
  show f: "found (ca sk') = found (ca sk)" .
  fix d c
  from f assms show "hystart_update p sk' d c = sk'" by (simp add: hystart_update_def)
next
  assume "list_all is_pkts_acked cs"
  with assms show "run_callbacks p k sk cs = Some sk" by (rule run_callbacks_guarded(2))
next
  fix d c
  assume "found (ca (hystart_update p sk0 d0 c0)) \<noteq> found (ca sk0)"
  then have "ucast (found (ca (hystart_update p sk0 d0 c0))) AND hystart_detect p \<noteq> 0"
    by (rule hystart_update_sets_guard)
  then show "hystart_update p (hystart_update p sk0 d0 c0) d c = hystart_update p sk0 d0 c0"
    by (simp add: hystart_update_def)
next
  fix d c
  assume "reachable p k sk1 \<and> found (ca sk1) \<noteq> 0"
  with reachable_found [of p k sk1] have "ucast (found (ca sk1)) AND hystart_detect p \<noteq> 0"
    by blast
  then show "hystart_update p sk1 d c = sk1" by (simp add: hystart_update_def)
qed

text \<open>
  With the DELAY flag recorded and both detectors selected, a sample of 70 ms leaves the
  socket and its threshold of 100 as they are.
\<close>

theorem hystart_single_fire_witness:
  "ucast (found (ca (sock_of 20 100 (zero_ca\<lparr>found := 2\<rparr>))))
      AND hystart_detect registered_defaults \<noteq> 0
   \<and> hystart_update registered_defaults (sock_of 20 100 (zero_ca\<lparr>found := 2\<rparr>)) 560 1000
       = sock_of 20 100 (zero_ca\<lparr>found := 2\<rparr>)
   \<and> snd_ssthresh (tp (bictcp_acked registered_defaults kernel_1000
       (sock_of 20 100 (zero_ca\<lparr>found := 2\<rparr>)) 70000 1000 1000)) = 100"
proof -
  have g: "ucast (found (ca (sock_of 20 100 (zero_ca\<lparr>found := 2\<rparr>))))
      AND hystart_detect registered_defaults \<noteq> 0"
    by (simp add: sock_of_def zero_ca_def registered_defaults_def module_defaults_def)
  note t = hystart_single_fire [OF g,
      where delay = 560 and clock = 1000 and k = kernel_1000 and rtt_us = 70000 and now = 1000]
  from t have a: "hystart_update registered_defaults (sock_of 20 100 (zero_ca\<lparr>found := 2\<rparr>)) 560 1000
       = sock_of 20 100 (zero_ca\<lparr>found := 2\<rparr>)" by blast
  from t have "bictcp_acked registered_defaults kernel_1000
       (sock_of 20 100 (zero_ca\<lparr>found := 2\<rparr>)) 70000 1000 1000
       = sock_of 20 100 (zero_ca\<lparr>found := 2\<rparr>)" by blast
  then have b: "snd_ssthresh (tp (bictcp_acked registered_defaults kernel_1000
       (sock_of 20 100 (zero_ca\<lparr>found := 2\<rparr>)) 70000 1000 1000)) = 100"
    by (simp add: sock_of_def)
  from g a b show ?thesis by blast
qed

section \<open>Two calls in one jiffy, and the friendliness blend\<close>

lemma register_defaults: "cubictcp_register module_defaults = Some registered_defaults"
  by (simp add: cubictcp_register_def module_defaults_def registered_defaults_def
      BICTCP_BETA_SCALE_def BICTCP_HZ_def signed_divide_int_def)

lemma sdiv_32_nonneg: "0 \<le> h \<Longrightarrow> 0 \<le> (h :: int) sdiv 32"
  by (simp add: signed_divide_int_def sgn_if)

text \<open>
  C8, as stated, fails.  Inside an epoch, when the window has changed since the last
  cubic update of the same jiffy (\<open>last_cwnd = 19\<close>, window 20, \<open>last_time = 100\<close>), both
  calls jump to the friendliness part.  The first leaves \<open>cnt = 20\<close>; the second counts
  two more ACKs, the Reno estimate goes from 21 to 22 and \<open>cnt\<close> becomes \<open>20 / 2 = 10\<close>.
\<close>

theorem update_twice_counterexample:
  "bictcp_update registered_defaults kernel_1000 jiffy_scenario 20 1 100
     = Some (jiffy_scenario\<lparr>ack_cnt := 36\<rparr>)
   \<and> cnt (jiffy_scenario\<lparr>ack_cnt := 36\<rparr>) = 20
   \<and> bictcp_update registered_defaults kernel_1000 (jiffy_scenario\<lparr>ack_cnt := 36\<rparr>) 20 2 100
     = Some (jiffy_scenario\<lparr>ack_cnt := 1, tcp_cwnd := 22, cnt := 10\<rparr>)
   \<and> cnt (jiffy_scenario\<lparr>ack_cnt := 1, tcp_cwnd := 22, cnt := 10\<rparr>) = 10"
proof -
  have a: "bictcp_update registered_defaults kernel_1000 jiffy_scenario 20 1 100
     = Some (jiffy_scenario\<lparr>ack_cnt := 36\<rparr>)"
    by (simp add: bictcp_update_eval tcp_cwnd_loop_idle)
  have b: "bictcp_update registered_defaults kernel_1000 (jiffy_scenario\<lparr>ack_cnt := 36\<rparr>) 20 2 100
     = Some (jiffy_scenario\<lparr>ack_cnt := 1, tcp_cwnd := 22, cnt := 10\<rparr>)"
    by (simp add: bictcp_update_eval tcp_cwnd_loop_returns)
  have c: "cnt (jiffy_scenario\<lparr>ack_cnt := 36\<rparr>) = 20" by (simp add: jiffy_scenario_def)
  from a b c show ?thesis by simp
qed

text \<open>
  C8, amended.  With a tick rate \<open>HZ \<ge> 0\<close>: when the first of two calls of
  \<open>bictcp_update\<close> in the same jiffy and with the same window returned through the
  rate limit or went through the cubic update, the second call returns through the rate
  limit and changes only \<open>ack_cnt\<close>, so \<open>cnt\<close> is the same.  When the first call jumped
  to the friendliness part instead, the second call jumps there again and evaluates the
  friendliness part once more, which may lower \<open>cnt\<close>.
\<close>

theorem update_twice_same_jiffy:
  assumes "0 \<le> HZ k" and "bictcp_update p k c cwnd acked now = Some c1"
  shows "(rate_limited k c cwnd now \<or> \<not> once_per_jiffy c now \<longrightarrow>
            rate_limited k c1 cwnd now
            \<and> bictcp_update p k c1 cwnd acked' now = Some (c1\<lparr>ack_cnt := ack_cnt c1 + acked'\<rparr>)
            \<and> cnt (c1\<lparr>ack_cnt := ack_cnt c1 + acked'\<rparr>) = cnt c1)
    \<and> (\<not> rate_limited k c cwnd now \<and> once_per_jiffy c now \<longrightarrow>
            bictcp_update p k c1 cwnd acked' now
              = bictcp_update_friendliness p (c1\<lparr>ack_cnt := ack_cnt c1 + acked'\<rparr>) cwnd)"
proof (intro conjI impI)
  let ?c = "c\<lparr>ack_cnt := ack_cnt c + acked\<rparr>"
  from assms(1) have h: "0 \<le> HZ k sdiv 32" by (rule sdiv_32_nonneg)
  assume p: "rate_limited k c cwnd now \<or> \<not> once_per_jiffy c now"
  show l: "rate_limited k c1 cwnd now"
  proof (cases "rate_limited k c cwnd now")
    case True
    with assms(2) have "c1 = ?c" by (simp add: bictcp_update_paths)
    with True show ?thesis by (simp add: rate_limited_def)
  next
    case False
    with p assms(2) obtain c2 where u: "bictcp_update_cubic p k ?c cwnd acked now = Some c2"
      and f: "bictcp_update_friendliness p c2 cwnd = Some c1"
      by (auto simp: bictcp_update_paths bind_eq_Some_conv)
    from cubic_sets [OF u] friendliness_keeps(1,2) [OF f]
    have "last_cwnd c1 = cwnd" and "last_time c1 = now" by simp_all
    with h show ?thesis by (simp add: rate_limited_def)
  qed
  then show "bictcp_update p k c1 cwnd acked' now = Some (c1\<lparr>ack_cnt := ack_cnt c1 + acked'\<rparr>)"
    by (simp add: bictcp_update_paths)
  show "cnt (c1\<lparr>ack_cnt := ack_cnt c1 + acked'\<rparr>) = cnt c1" by simp
next
  let ?c = "c\<lparr>ack_cnt := ack_cnt c + acked\<rparr>"
  from assms(1) have h: "0 \<le> HZ k sdiv 32" by (rule sdiv_32_nonneg)
  assume p: "\<not> rate_limited k c cwnd now \<and> once_per_jiffy c now"
  with assms(2) have f: "bictcp_update_friendliness p ?c cwnd = Some c1"
    by (simp add: bictcp_update_paths)
  from friendliness_keeps(1,2,3) [OF f]
  have k: "last_cwnd c1 = last_cwnd c" "last_time c1 = last_time c"
    "epoch_start c1 = epoch_start c" by simp_all
  from p k have "\<not> rate_limited k c1 cwnd now" and "once_per_jiffy c1 now"
    by (auto simp: rate_limited_def once_per_jiffy_def)
  then show "bictcp_update p k c1 cwnd acked' now
      = bictcp_update_friendliness p (c1\<lparr>ack_cnt := ack_cnt c1 + acked'\<rparr>) cwnd"
    by (simp add: bictcp_update_paths)
qed

text \<open>
  The first two ACKs of a fresh connection in jiffy 100 at a window of 10: the first
  starts the epoch and leaves \<open>cnt = 20\<close>, the second is rate-limited and counts its
  packet only.
\<close>

theorem update_twice_same_jiffy_witness:
  "0 \<le> HZ kernel_1000
   \<and> \<not> once_per_jiffy zero_ca 100
   \<and> bictcp_update registered_defaults kernel_1000 zero_ca 10 1 100
       = Some (zero_ca\<lparr>last_cwnd := 10, last_time := 100, epoch_start := 100, ack_cnt := 1,
                 tcp_cwnd := 10, bic_K := 0, bic_origin_point := 10, cnt := 20\<rparr>)
   \<and> bictcp_update registered_defaults kernel_1000
        (zero_ca\<lparr>last_cwnd := 10, last_time := 100, epoch_start := 100, ack_cnt := 1,
                 tcp_cwnd := 10, bic_K := 0, bic_origin_point := 10, cnt := 20\<rparr>) 10 1 100
       = Some (zero_ca\<lparr>last_cwnd := 10, last_time := 100, epoch_start := 100, ack_cnt := 2,
                 tcp_cwnd := 10, bic_K := 0, bic_origin_point := 10, cnt := 20\<rparr>)"
proof -
  let ?c1 = "zero_ca\<lparr>last_cwnd := 10, last_time := 100, epoch_start := 100, ack_cnt := 1,
                 tcp_cwnd := 10, bic_K := 0, bic_origin_point := 10, cnt := 20\<rparr>"
  have z: "0 \<le> HZ kernel_1000" by (simp add: kernel_1000_def)
  have o: "\<not> once_per_jiffy zero_ca 100" by (simp add: once_per_jiffy_def zero_ca_def)
  have e: "bictcp_update registered_defaults kernel_1000 zero_ca 10 1 100 = Some ?c1"
    by (simp add: bictcp_update_eval tcp_cwnd_loop_idle)
  from o have d: "rate_limited kernel_1000 zero_ca 10 100 \<or> \<not> once_per_jiffy zero_ca 100" ..
  from update_twice_same_jiffy [OF z e, THEN conjunct1, THEN mp, OF d, of 1]
  have "bictcp_update registered_defaults kernel_1000 ?c1 10 1 100
      = Some (?c1\<lparr>ack_cnt := ack_cnt ?c1 + 1\<rparr>)" by blast
  then have "bictcp_update registered_defaults kernel_1000 ?c1 10 1 100
      = Some (zero_ca\<lparr>last_cwnd := 10, last_time := 100, epoch_start := 100, ack_cnt := 2,
                 tcp_cwnd := 10, bic_K := 0, bic_origin_point := 10, cnt := 20\<rparr>)"
    by (simp add: zero_ca_def)
  with z o e show ?thesis by blast
qed

text \<open>
  C5, as stated, fails: the step of the Reno estimate is not \<open>(3 * window) / 8\<close>.
  With the registered defaults (\<open>tcp_friendliness = 1\<close>, \<open>beta_scale = 15\<close>), a window of
  8, a Reno estimate of 8 and 10 acknowledged packets counted, the specification's step
  is 3, so the estimate should have advanced; the code's step is \<open>(8 * 15) >> 3 = 15\<close>,
  and the friendliness part changes nothing: the estimate stays 8 and \<open>cnt\<close> stays 100.
\<close>

theorem friendliness_step_counterexample:
  "tcp_friendliness registered_defaults \<noteq> 0
   \<and> spec_reno_step 8 < unat (ack_cnt reno_scenario)
   \<and> tcp_cwnd reno_scenario = 8
   \<and> bictcp_update_friendliness registered_defaults reno_scenario 8 = Some reno_scenario"
  by (simp add: spec_reno_step_def bictcp_update_eval tcp_cwnd_loop_idle)

text \<open>
  C5, amended.  Every call of \<open>bictcp_update\<close> that the rate limit does not stop ends
  in the friendliness part, after the cubic update or, within one jiffy, without it.
  With \<open>tcp_friendliness\<close> on and a nonzero step
  \<open>delta = (window * beta_scale) >> 3\<close>, the friendliness part returns; the Reno
  estimate \<open>tcp_cwnd\<close> has advanced by one for every \<open>delta\<close> packets counted in
  \<open>ack_cnt\<close>, that is by \<open>(ack_cnt - 1) div delta\<close>, and \<open>ack_cnt\<close> is left at most
  \<open>delta\<close>; if the estimate exceeds the window, \<open>cnt\<close> is the smaller of its old value
  and \<open>window / (tcp_cwnd - window)\<close>; at the end \<open>cnt\<close> is raised to 2 if it is
  less.  With \<open>tcp_friendliness\<close> off only that floor is applied.
\<close>

theorem tcp_friendliness_blend:
  "(\<not> rate_limited k c cwnd now \<longrightarrow>
      bictcp_update p k c cwnd acked now =
        Option.bind
          (if once_per_jiffy c now then Some (c\<lparr>ack_cnt := ack_cnt c + acked\<rparr>)
           else bictcp_update_cubic p k (c\<lparr>ack_cnt := ack_cnt c + acked\<rparr>) cwnd acked now)
          (\<lambda>c1. bictcp_update_friendliness p c1 cwnd))
   \<and> (tcp_friendliness p \<noteq> 0 \<and> drop_bit 3 (cwnd * beta_scale p) \<noteq> 0 \<longrightarrow>
      (\<exists>r. bictcp_update_friendliness p c cwnd = Some r
        \<and> tcp_cwnd r = tcp_cwnd c
             + of_nat ((unat (ack_cnt c) - 1) div unat (drop_bit 3 (cwnd * beta_scale p)))
        \<and> ack_cnt r = ack_cnt c
             - of_nat ((unat (ack_cnt c) - 1) div unat (drop_bit 3 (cwnd * beta_scale p)))
               * drop_bit 3 (cwnd * beta_scale p)
        \<and> ack_cnt r \<le> drop_bit 3 (cwnd * beta_scale p)
        \<and> cnt r = max (if cwnd < tcp_cwnd r then min (cnt c) (cwnd div (tcp_cwnd r - cwnd))
                       else cnt c) 2))
   \<and> (tcp_friendliness p = 0 \<longrightarrow>
      bictcp_update_friendliness p c cwnd = Some (c\<lparr>cnt := max (cnt c) 2\<rparr>))"
proof (intro conjI impI)
  assume "\<not> rate_limited k c cwnd now"
  then show "bictcp_update p k c cwnd acked now =
        Option.bind
          (if once_per_jiffy c now then Some (c\<lparr>ack_cnt := ack_cnt c + acked\<rparr>)
           else bictcp_update_cubic p k (c\<lparr>ack_cnt := ack_cnt c + acked\<rparr>) cwnd acked now)
          (\<lambda>c1. bictcp_update_friendliness p c1 cwnd)"
    by (simp add: bictcp_update_paths)
next
  let ?d = "drop_bit 3 (cwnd * beta_scale p)"
  let ?n = "(unat (ack_cnt c) - 1) div unat ?d"
  let ?c1 = "c\<lparr>ack_cnt := ack_cnt c - of_nat ?n * ?d, tcp_cwnd := tcp_cwnd c + of_nat ?n\<rparr>"
  assume a: "tcp_friendliness p \<noteq> 0 \<and> ?d \<noteq> 0"
  then have l: "tcp_cwnd_loop ?d c = Some ?c1" by (simp add: tcp_cwnd_loop_returns)
  from tcp_cwnd_loop_frame [OF l] have le: "ack_cnt ?c1 \<le> ?d" by simp
  define r where "r = (if cwnd < tcp_cwnd ?c1
      then (if cwnd div (tcp_cwnd ?c1 - cwnd) < cnt ?c1
            then ?c1\<lparr>cnt := cwnd div (tcp_cwnd ?c1 - cwnd)\<rparr> else ?c1)
      else ?c1)\<lparr>cnt := max (cnt (if cwnd < tcp_cwnd ?c1
      then (if cwnd div (tcp_cwnd ?c1 - cwnd) < cnt ?c1
            then ?c1\<lparr>cnt := cwnd div (tcp_cwnd ?c1 - cwnd)\<rparr> else ?c1)
      else ?c1)) 2\<rparr>"
  from a l have e: "bictcp_update_friendliness p c cwnd = Some r"
    by (simp add: bictcp_update_friendliness_def r_def Let_def)
  have t: "tcp_cwnd r = tcp_cwnd c + of_nat ?n" and k: "ack_cnt r = ack_cnt c - of_nat ?n * ?d"
    by (simp_all add: r_def)
  from le have b: "ack_cnt r \<le> ?d" by (simp add: r_def)
  have m: "cnt r = max (if cwnd < tcp_cwnd r then min (cnt c) (cwnd div (tcp_cwnd r - cwnd))
                       else cnt c) 2"
    unfolding t by (auto simp: r_def min_def)
  from e t k b m
  show "\<exists>r. bictcp_update_friendliness p c cwnd = Some r
        \<and> tcp_cwnd r = tcp_cwnd c + of_nat ?n
        \<and> ack_cnt r = ack_cnt c - of_nat ?n * ?d
        \<and> ack_cnt r \<le> ?d
        \<and> cnt r = max (if cwnd < tcp_cwnd r then min (cnt c) (cwnd div (tcp_cwnd r - cwnd))
                       else cnt c) 2"
    by blast
next
  assume "tcp_friendliness p = 0"
  then show "bictcp_update_friendliness p c cwnd = Some (c\<lparr>cnt := max (cnt c) 2\<rparr>)"
    by (simp add: bictcp_update_friendliness_def)
qed

text \<open>
  The defaults: \<open>cubictcp_register\<close> computes \<open>beta_scale = 8 * 1741 / 3 / 307 = 15\<close>.  At
  a window of 20 the step is \<open>(20 * 15) >> 3 = 37\<close>; with 38 packets counted the Reno
  estimate goes from 21 to 22, one packet stays counted, and \<open>cnt\<close> goes from 20 to
  \<open>20 / (22 - 20) = 10\<close>.
\<close>

theorem tcp_friendliness_blend_witness:
  "cubictcp_register module_defaults = Some registered_defaults
   \<and> beta_scale registered_defaults = 15
   \<and> tcp_friendliness registered_defaults \<noteq> 0
   \<and> drop_bit 3 (20 * beta_scale registered_defaults) = 37
   \<and> bictcp_update_friendliness registered_defaults (jiffy_scenario\<lparr>ack_cnt := 38\<rparr>) 20
       = Some (jiffy_scenario\<lparr>ack_cnt := 1, tcp_cwnd := 22, cnt := 10\<rparr>)"
proof -
  let ?c = "jiffy_scenario\<lparr>ack_cnt := 38\<rparr>"
  have s: "beta_scale registered_defaults = 15 \<and> tcp_friendliness registered_defaults \<noteq> 0
      \<and> drop_bit 3 (20 * beta_scale registered_defaults) = 37"
    by (simp add: registered_defaults_def module_defaults_def)
  then have h: "tcp_friendliness registered_defaults \<noteq> 0
      \<and> drop_bit 3 (20 * beta_scale registered_defaults) \<noteq> 0" by simp
  from tcp_friendliness_blend [where p = registered_defaults and c = ?c and cwnd = 20,
      THEN conjunct2, THEN conjunct1, THEN mp, OF h]
  obtain r where e: "bictcp_update_friendliness registered_defaults ?c 20 = Some r" by blast
  have "bictcp_update_friendliness registered_defaults ?c 20
      = Some (jiffy_scenario\<lparr>ack_cnt := 1, tcp_cwnd := 22, cnt := 10\<rparr>)"
    by (simp add: bictcp_update_eval tcp_cwnd_loop_returns)
  with e register_defaults s show ?thesis by simp
qed

end
